theory Spec2Isabelle
  imports Main "HOL-Library.Word" "HOL-Library.Monad_Syntax"
begin

unbundle bit_operations_syntax

section \<open>LEDControl: the strip animator (LEDControl.cpp)\<close>

text \<open>
  The development embeds the class \<^verbatim>\<open>LEDControl\<close>: its constructor, its mode setters
  and the master function \<^verbatim>\<open>update()\<close> with the helpers \<^verbatim>\<open>shiftFwd()\<close> and
  \<^verbatim>\<open>shiftRev()\<close>. Member names are kept without their leading underscore.
  A result \<open>None\<close> stands for an execution on which C++ gives no meaning: a read or
  write outside the pixel array, a division by zero, a shift by a negative count or by
  the width of the operand or more.

  The \<^verbatim>\<open>int\<close> members and locals are integers of HOL. The source adds and subtracts 1
  on them and forms two products, \<^verbatim>\<open>_ledCount*percent\<close> and \<^verbatim>\<open>i*delta\<close>; the theorems
  about these products carry bounds under which they fit an \<^verbatim>\<open>int\<close> of 16 bits, so that
  no overflow is involved.
\<close>

subsection \<open>Colours (FastLED's CRGB)\<close>

record CRGB =
  r :: "8 word"
  g :: "8 word"
  b :: "8 word"

definition Black :: CRGB where
  "Black = \<lparr>r = 0, g = 0, b = 0\<rparr>"

text \<open>
  Two operations of the FastLED library are used by \<^verbatim>\<open>update()\<close> and are not part of
  this repository: the conversion \<^verbatim>\<open>CRGB = CHSV(h, s, v)\<close> and the dimming operator
  \<^verbatim>\<open>CRGB %= uint8_t\<close>. Both are parameters of the model (\<open>hsv\<close> and \<open>dim\<close>), so every
  theorem holds for whatever pure functions the library provides.
\<close>

type_synonym hsv_fn = "8 word \<Rightarrow> 8 word \<Rightarrow> 8 word \<Rightarrow> CRGB"
type_synonym dim_fn = "CRGB \<Rightarrow> 8 word \<Rightarrow> CRGB"

text \<open>
  Instances for closed examples: FastLED documents \<^verbatim>\<open>%=\<close> as video scaling of each
  channel, \<^verbatim>\<open>(i * scale) / 256\<close> plus one when both are non-zero; \<open>hsv_plain\<close> just
  stores the three bytes.
\<close>

definition scale8_video :: "8 word \<Rightarrow> 8 word \<Rightarrow> 8 word" where
  "scale8_video i scale =
     of_nat ((unat i * unat scale) div 256 + (if i \<noteq> 0 \<and> scale \<noteq> 0 then 1 else 0))"

definition nscale8_video :: dim_fn where
  "nscale8_video c scale =
     \<lparr>r = scale8_video (r c) scale, g = scale8_video (g c) scale, b = scale8_video (b c) scale\<rparr>"

definition hsv_plain :: hsv_fn where
  "hsv_plain h s v = \<lparr>r = h, g = s, b = v\<rparr>"

subsection \<open>The state of one strip\<close>

text \<open>
  Modelled from the spec: the header LEDControl.h, which declares the members and defines
  the constants \<^verbatim>\<open>MODE_...\<close>, is not among the sources. The constants are the
  values of a datatype (the spec's AnimationMode, and \<^verbatim>\<open>MODE_UNDEF\<close> which
  \<^verbatim>\<open>update()\<close> names), so they are pairwise distinct as the labels of one
  \<^verbatim>\<open>switch\<close> must be, and the \<^verbatim>\<open>default:\<close> label of \<^verbatim>\<open>update()\<close> has no value left
  to catch. The bitmap is an \<^verbatim>\<open>unsigned long\<close> of 32 bits, as README.md says.
\<close>

datatype led_mode =
    MODE_UNDEF | MODE_OFF | MODE_ON | MODE_RUNFWD | MODE_RUNREV | MODE_RAINBF | MODE_RAINBR
  | MODE_CYLON | MODE_BITMAP | MODE_MARQUEE | MODE_BREATHE

record LEDControl =
  ledCount :: int
  leds :: "CRGB list"
  newMode :: bool
  mode :: led_mode
  color :: CRGB
  bitmap :: "32 word"
  config :: int
  curdir :: led_mode

text \<open>
  \<open>leds\<close> is the caller's array \<^verbatim>\<open>CRGB leds[]\<close> that the object points to; its length
  is the real size of that array, \<open>ledCount\<close> is what the constructor was told. A strip is
  in order (\<open>strip_ok\<close>) when the count is positive and is the length of the array.
\<close>

definition strip_ok :: "LEDControl \<Rightarrow> bool" where
  "strip_ok s \<longleftrightarrow> 0 < ledCount s \<and> int (length (leds s)) = ledCount s"

text \<open>The brightness map and its size.\<close>

definition dimming :: "8 word list" where
  "dimming = [235,206,179,154,131,110,91,74,59,46,35,26,19,14,11,10]"

definition numdims :: int where
  "numdims = 16"

subsection \<open>Array accesses and loops\<close>

definition get :: "'a list \<Rightarrow> int \<Rightarrow> 'a option" where
  "get xs i = (if 0 \<le> i \<and> i < int (length xs) then Some (xs ! nat i) else None)"

definition put :: "'a list \<Rightarrow> int \<Rightarrow> 'a \<Rightarrow> 'a list option" where
  "put xs i v = (if 0 \<le> i \<and> i < int (length xs) then Some (xs[nat i := v]) else None)"

text \<open>FastLED's \<^verbatim>\<open>fill_solid(leds, numToFill, color)\<close> writes the first \<open>numToFill\<close> cells.\<close>

definition fill_solid :: "CRGB list \<Rightarrow> int \<Rightarrow> CRGB \<Rightarrow> CRGB list option" where
  "fill_solid xs n c =
     (if n \<le> int (length xs) then Some (replicate (nat n) c @ drop (nat n) xs) else None)"

declare Option.bind_cong [fundef_cong]

text \<open>\<^verbatim>\<open>for (int i = lo; i < hi; i++) body\<close>\<close>

function for_up :: "int \<Rightarrow> int \<Rightarrow> (int \<Rightarrow> 'a \<Rightarrow> 'a option) \<Rightarrow> 'a \<Rightarrow> 'a option" where
  "for_up lo hi body x =
     (if lo < hi then do { y \<leftarrow> body lo x; for_up (lo + 1) hi body y } else Some x)"
  by pat_completeness auto
termination
  by (relation "measure (\<lambda>(lo, hi, body, x). nat (hi - lo))") auto

text \<open>\<^verbatim>\<open>for (int i = hi; i > 0; i--) body\<close>\<close>

function for_down :: "int \<Rightarrow> (int \<Rightarrow> 'a \<Rightarrow> 'a option) \<Rightarrow> 'a \<Rightarrow> 'a option" where
  "for_down hi body x =
     (if hi > 0 then do { y \<leftarrow> body hi x; for_down (hi - 1) body y } else Some x)"
  by pat_completeness auto
termination
  by (relation "measure (\<lambda>(hi, body, x). nat hi)") auto

declare for_up.simps [simp del] for_down.simps [simp del]

subsection \<open>Constructor and setters\<close>

text \<open>
  The constructor stores its arguments and initialises every member but \<^verbatim>\<open>_bitmap\<close>,
  whose indeterminate content is the parameter \<open>b0\<close>. It writes the literal 0 to
  \<^verbatim>\<open>_curdir\<close>; the model takes \<^verbatim>\<open>MODE_UNDEF\<close> for it (\<^verbatim>\<open>_curdir\<close> is written by
  \<^verbatim>\<open>setBreathe\<close> and by the first Cylon and Breathe ticks before it is ever read).
\<close>

definition LEDControl_init :: "int \<Rightarrow> CRGB list \<Rightarrow> 32 word \<Rightarrow> LEDControl" where
  "LEDControl_init num_leds xs b0 =
     \<lparr>ledCount = num_leds, leds = xs, newMode = True, mode = MODE_OFF, color = Black,
      bitmap = b0, config = 0, curdir = MODE_UNDEF\<rparr>"

text \<open>
  Construction as an operation that may fail: \<open>None\<close> would be a construction error. The
  constructor has no check and no failing path, so the result is always an object.
\<close>

definition construct :: "int \<Rightarrow> CRGB list \<Rightarrow> 32 word \<Rightarrow> LEDControl option" where
  "construct num_leds xs b0 = Some (LEDControl_init num_leds xs b0)"

definition getMode :: "LEDControl \<Rightarrow> led_mode" where
  "getMode s = mode s"

definition setOneColor :: "CRGB \<Rightarrow> LEDControl \<Rightarrow> LEDControl" where
  "setOneColor c s = s\<lparr>newMode := True, mode := MODE_ON, color := c\<rparr>"

definition setRunFwd :: "CRGB \<Rightarrow> LEDControl \<Rightarrow> LEDControl" where
  "setRunFwd c s = s\<lparr>newMode := True, mode := MODE_RUNFWD, color := c\<rparr>"

definition setRunRev :: "CRGB \<Rightarrow> LEDControl \<Rightarrow> LEDControl" where
  "setRunRev c s = s\<lparr>newMode := True, mode := MODE_RUNREV, color := c\<rparr>"

definition setRainbowFwd :: "LEDControl \<Rightarrow> LEDControl" where
  "setRainbowFwd s = s\<lparr>newMode := True, mode := MODE_RAINBF\<rparr>"

definition setRainbowRev :: "LEDControl \<Rightarrow> LEDControl" where
  "setRainbowRev s = s\<lparr>newMode := True, mode := MODE_RAINBR\<rparr>"

definition setCylon :: "CRGB \<Rightarrow> LEDControl \<Rightarrow> LEDControl" where
  "setCylon c s = s\<lparr>newMode := True, mode := MODE_CYLON, color := c\<rparr>"

definition setPattern :: "CRGB \<Rightarrow> 32 word \<Rightarrow> LEDControl \<Rightarrow> LEDControl" where
  "setPattern c bm s = s\<lparr>newMode := True, mode := MODE_BITMAP, color := c, bitmap := bm\<rparr>"

text \<open>
  \<^verbatim>\<open>int lit = (_ledCount*(percent))/100.0;\<close> divides in floating point and truncates
  towards zero on the conversion back to \<^verbatim>\<open>int\<close>; on the integers that is the
  truncating quotient by 100.
\<close>

definition trunc100 :: "int \<Rightarrow> int" where
  "trunc100 x = (if 0 \<le> x then x div 100 else - ((- x) div 100))"

text \<open>
  \<^verbatim>\<open>1UL << lit\<close> is defined by C++ for counts 0..31 only. For any other count the
  stored value is whatever the platform's shift yields: the parameter \<open>wide\<close>.
\<close>

definition shl1 :: "(int \<Rightarrow> 32 word) \<Rightarrow> int \<Rightarrow> 32 word" where
  "shl1 wide lit = (if 0 \<le> lit \<and> lit < 32 then push_bit (nat lit) 1 else wide lit)"

text \<open>The shift of a platform that takes the count modulo the width (32).\<close>

definition wrap_shift :: "int \<Rightarrow> 32 word" where
  "wrap_shift lit = push_bit (nat (lit mod 32)) 1"

definition setProgress :: "(int \<Rightarrow> 32 word) \<Rightarrow> CRGB \<Rightarrow> int \<Rightarrow> LEDControl \<Rightarrow> LEDControl" where
  "setProgress wide c percent s =
     (let percent1 = (if percent > 100 then 100 else percent);
          percent2 = (if percent1 < 0 then 0 else percent1);
          lit = trunc100 (ledCount s * percent2)
      in s\<lparr>newMode := True, mode := MODE_BITMAP, color := c, bitmap := shl1 wide lit - 1\<rparr>)"

definition setMarquee :: "CRGB \<Rightarrow> 32 word \<Rightarrow> LEDControl \<Rightarrow> LEDControl" where
  "setMarquee c bm s = s\<lparr>newMode := True, mode := MODE_MARQUEE, color := c, bitmap := bm\<rparr>"

definition setBreathe :: "CRGB \<Rightarrow> LEDControl \<Rightarrow> LEDControl" where
  "setBreathe c s =
     s\<lparr>newMode := True, mode := MODE_BREATHE, config := 0, curdir := MODE_RUNFWD, color := c\<rparr>"

subsection \<open>The shifts\<close>

definition shiftFwd :: "LEDControl \<Rightarrow> LEDControl option" where
  "shiftFwd s = do {
     lst \<leftarrow> get (leds s) (ledCount s - 1);
     xs \<leftarrow> for_down (ledCount s - 1)
            (\<lambda>i xs. do { v \<leftarrow> get xs (i - 1); put xs i v }) (leds s);
     xs' \<leftarrow> put xs 0 lst;
     Some (s\<lparr>leds := xs'\<rparr>) }"

definition shiftRev :: "LEDControl \<Rightarrow> LEDControl option" where
  "shiftRev s = do {
     first \<leftarrow> get (leds s) 0;
     xs \<leftarrow> for_up 0 (ledCount s - 1)
            (\<lambda>i xs. do { v \<leftarrow> get xs (i + 1); put xs i v }) (leds s);
     xs' \<leftarrow> put xs (ledCount s - 1) first;
     Some (s\<lparr>leds := xs'\<rparr>) }"

subsection \<open>The master update function\<close>

text \<open>C++ division of \<^verbatim>\<open>int\<close>s truncates towards zero and has no meaning for a zero divisor.\<close>

definition cdiv :: "int \<Rightarrow> int \<Rightarrow> int option" where
  "cdiv a d = (if d = 0 then None else Some (sgn a * sgn d * (\<bar>a\<bar> div \<bar>d\<bar>)))"

text \<open>\<^verbatim>\<open>(_bitmap & (mask<<i)) != 0\<close> with \<^verbatim>\<open>unsigned long mask = 1\<close>\<close>

definition bit_set :: "32 word \<Rightarrow> int \<Rightarrow> bool" where
  "bit_set bm i \<longleftrightarrow> bm AND push_bit (nat i) 1 \<noteq> 0"

text \<open>The loop of the first Bitmap and Marquee tick: set bits are painted, others skipped.\<close>

definition paint_set :: "32 word \<Rightarrow> CRGB \<Rightarrow> int \<Rightarrow> CRGB list \<Rightarrow> CRGB list option" where
  "paint_set bm c m xs = for_up 0 m (\<lambda>i xs. if bit_set bm i then put xs i c else Some xs) xs"

text \<open>The loop of the later Marquee ticks: every cell below \<open>m\<close> is written.\<close>

definition paint_all :: "32 word \<Rightarrow> CRGB \<Rightarrow> int \<Rightarrow> CRGB list \<Rightarrow> CRGB list option" where
  "paint_all bm c m xs =
     for_up 0 m (\<lambda>i xs. if bit_set bm i then put xs i c else put xs i Black) xs"

definition update_OFF :: "LEDControl \<Rightarrow> LEDControl option" where
  "update_OFF s =
     (if newMode s then do {
        xs \<leftarrow> fill_solid (leds s) (ledCount s) Black;
        Some (s\<lparr>leds := xs, newMode := False\<rparr>) }
      else Some s)"

definition update_ON :: "LEDControl \<Rightarrow> LEDControl option" where
  "update_ON s =
     (if newMode s then do {
        xs \<leftarrow> fill_solid (leds s) (ledCount s) (color s);
        Some (s\<lparr>leds := xs, newMode := False\<rparr>) }
      else Some s)"

definition update_RUNFWD :: "LEDControl \<Rightarrow> LEDControl option" where
  "update_RUNFWD s =
     (if newMode s then do {
        xs \<leftarrow> fill_solid (leds s) (ledCount s) Black;
        xs' \<leftarrow> put xs 0 (color s);
        Some (s\<lparr>leds := xs', newMode := False\<rparr>) }
      else shiftFwd s)"

definition update_RUNREV :: "LEDControl \<Rightarrow> LEDControl option" where
  "update_RUNREV s =
     (if newMode s then do {
        xs \<leftarrow> fill_solid (leds s) (ledCount s) Black;
        xs' \<leftarrow> put xs (ledCount s - 1) (color s);
        Some (s\<lparr>leds := xs', newMode := False\<rparr>) }
      else shiftRev s)"

text \<open>
  The two rainbow cases differ in the mode they hand over to. \<^verbatim>\<open>CHSV\<close> takes the hue
  as a \<^verbatim>\<open>uint8_t\<close>. The \<^verbatim>\<open>else\<close> branch only prints a message.
\<close>

definition update_RAINB :: "hsv_fn \<Rightarrow> led_mode \<Rightarrow> LEDControl \<Rightarrow> LEDControl option" where
  "update_RAINB hsv handover s = do {
     delta \<leftarrow> cdiv 256 (ledCount s);
     if newMode s then do {
       xs \<leftarrow> for_up 0 (ledCount s)
              (\<lambda>i xs. put xs i (hsv (word_of_int (i * delta)) 255 255)) (leds s);
       Some (s\<lparr>leds := xs, newMode := False, mode := handover\<rparr>) }
     else Some s }"

definition update_CYLON :: "LEDControl \<Rightarrow> LEDControl option" where
  "update_CYLON s =
     (if newMode s then do {
        xs \<leftarrow> fill_solid (leds s) (ledCount s) Black;
        xs' \<leftarrow> put xs 0 (color s);
        Some (s\<lparr>leds := xs', curdir := MODE_RUNFWD, newMode := False\<rparr>) }
      else if curdir s = MODE_RUNFWD then do {
        e \<leftarrow> get (leds s) (ledCount s - 1);
        if e = color s then Some (s\<lparr>curdir := MODE_RUNREV\<rparr>) else shiftFwd s }
      else do {
        e \<leftarrow> get (leds s) 0;
        if e = color s then Some (s\<lparr>curdir := MODE_RUNFWD\<rparr>) else shiftRev s })"

definition update_BITMAP :: "LEDControl \<Rightarrow> LEDControl option" where
  "update_BITMAP s =
     (if newMode s then do {
        xs \<leftarrow> fill_solid (leds s) (ledCount s) Black;
        xs' \<leftarrow> paint_set (bitmap s) (color s) (min (ledCount s) 32) xs;
        Some (s\<lparr>leds := xs', newMode := False\<rparr>) }
      else Some s)"

text \<open>
  The rotation \<^verbatim>\<open>(_bitmap << 1UL) | (_bitmap >> ((unsigned long)(m-1)))\<close>: the right
  shift has a meaning for \<open>1 \<le> m\<close> only (\<open>m \<le> 32\<close> holds by the \<^verbatim>\<open>min\<close>).
\<close>

definition update_MARQUEE :: "LEDControl \<Rightarrow> LEDControl option" where
  "update_MARQUEE s =
     (if newMode s then do {
        xs \<leftarrow> fill_solid (leds s) (ledCount s) Black;
        xs' \<leftarrow> paint_set (bitmap s) (color s) (min (ledCount s) 32) xs;
        Some (s\<lparr>leds := xs', newMode := False\<rparr>) }
      else
        (let m = min (ledCount s) 32 in
         if m < 1 then None
         else do {
           let bm = push_bit 1 (bitmap s) OR drop_bit (nat (m - 1)) (bitmap s);
           xs \<leftarrow> paint_all bm (color s) m (leds s);
           Some (s\<lparr>bitmap := bm, leds := xs\<rparr>) }))"

definition update_BREATHE :: "dim_fn \<Rightarrow> LEDControl \<Rightarrow> LEDControl option" where
  "update_BREATHE dim s0 = do {
     let s = (if newMode s0 then s0\<lparr>newMode := False, curdir := MODE_RUNFWD, config := 0\<rparr>
              else s0);
     d \<leftarrow> get dimming (config s);
     xs \<leftarrow> fill_solid (leds s) (ledCount s) (dim (color s) d);
     let s = s\<lparr>leds := xs\<rparr>;
     Some (if curdir s = MODE_RUNFWD then
             (if config s = numdims - 1 then s\<lparr>curdir := MODE_RUNREV\<rparr>
              else s\<lparr>config := config s + 1\<rparr>)
           else
             (if config s = 0 then s\<lparr>curdir := MODE_RUNFWD\<rparr>
              else s\<lparr>config := config s - 1\<rparr>)) }"

definition update :: "hsv_fn \<Rightarrow> dim_fn \<Rightarrow> LEDControl \<Rightarrow> LEDControl option" where
  "update hsv dim s =
     (case mode s of
        MODE_UNDEF \<Rightarrow> Some s
      | MODE_OFF \<Rightarrow> update_OFF s
      | MODE_ON \<Rightarrow> update_ON s
      | MODE_RUNFWD \<Rightarrow> update_RUNFWD s
      | MODE_RUNREV \<Rightarrow> update_RUNREV s
      | MODE_RAINBF \<Rightarrow> update_RAINB hsv MODE_RUNFWD s
      | MODE_RAINBR \<Rightarrow> update_RAINB hsv MODE_RUNREV s
      | MODE_CYLON \<Rightarrow> update_CYLON s
      | MODE_BITMAP \<Rightarrow> update_BITMAP s
      | MODE_MARQUEE \<Rightarrow> update_MARQUEE s
      | MODE_BREATHE \<Rightarrow> update_BREATHE dim s)"

text \<open>\<open>n\<close> successive calls of \<^verbatim>\<open>update()\<close> with no setter in between.\<close>

fun ticks :: "hsv_fn \<Rightarrow> dim_fn \<Rightarrow> nat \<Rightarrow> LEDControl \<Rightarrow> LEDControl option" where
  "ticks hsv dim 0 s = Some s"
| "ticks hsv dim (Suc n) s = do { s' \<leftarrow> update hsv dim s; ticks hsv dim n s' }"

text \<open>The indices of the pixels that hold colour \<open>c\<close>, in increasing order.\<close>

definition lit_pixels :: "CRGB \<Rightarrow> LEDControl \<Rightarrow> nat list" where
  "lit_pixels c s = filter (\<lambda>i. leds s ! i = c) [0..<length (leds s)]"

subsection \<open>Calls on one object\<close>

text \<open>
  What a host program can do with an object once it is constructed: call a setter or
  \<^verbatim>\<open>update()\<close>, in any order.
\<close>

datatype call =
    SetOneColor CRGB | SetRunFwd CRGB | SetRunRev CRGB | SetRainbowFwd | SetRainbowRev
  | SetCylon CRGB | SetPattern CRGB "32 word" | SetProgress CRGB int
  | SetMarquee CRGB "32 word" | SetBreathe CRGB | Update

fun exec :: "hsv_fn \<Rightarrow> dim_fn \<Rightarrow> (int \<Rightarrow> 32 word) \<Rightarrow> call \<Rightarrow> LEDControl \<Rightarrow> LEDControl option" where
  "exec hsv dim wide (SetOneColor c) s = Some (setOneColor c s)"
| "exec hsv dim wide (SetRunFwd c) s = Some (setRunFwd c s)"
| "exec hsv dim wide (SetRunRev c) s = Some (setRunRev c s)"
| "exec hsv dim wide SetRainbowFwd s = Some (setRainbowFwd s)"
| "exec hsv dim wide SetRainbowRev s = Some (setRainbowRev s)"
| "exec hsv dim wide (SetCylon c) s = Some (setCylon c s)"
| "exec hsv dim wide (SetPattern c bm) s = Some (setPattern c bm s)"
| "exec hsv dim wide (SetProgress c p) s = Some (setProgress wide c p s)"
| "exec hsv dim wide (SetMarquee c bm) s = Some (setMarquee c bm s)"
| "exec hsv dim wide (SetBreathe c) s = Some (setBreathe c s)"
| "exec hsv dim wide Update s = update hsv dim s"

fun run :: "hsv_fn \<Rightarrow> dim_fn \<Rightarrow> (int \<Rightarrow> 32 word) \<Rightarrow> call list \<Rightarrow> LEDControl \<Rightarrow> LEDControl option" where
  "run hsv dim wide [] s = Some s"
| "run hsv dim wide (c # cs) s = do { s' \<leftarrow> exec hsv dim wide c s; run hsv dim wide cs s' }"

subsection \<open>Names for closed examples\<close>

text \<open>\<^verbatim>\<open>CRGB::Red\<close> is 0xFF0000.\<close>

definition Red :: CRGB where
  "Red = \<lparr>r = 255, g = 0, b = 0\<rparr>"

subsection \<open>The Breathe cycle in closed form\<close>

text \<open>
  The pair (\<^verbatim>\<open>_config\<close>, \<^verbatim>\<open>_curdir\<close>) after \<open>k\<close> Breathe ticks, counted from the state
  \<^verbatim>\<open>setBreathe\<close> leaves: up from 0 to 15, one tick of turning at 15, down to 0, one
  tick of turning at 0. That it describes \<^verbatim>\<open>update()\<close> is lemma \<open>breathe_closed\<close>.
\<close>

definition breathe_phase :: "nat \<Rightarrow> int \<times> led_mode" where
  "breathe_phase k =
     (let j = k mod 32 in if j \<le> 15 then (int j, MODE_RUNFWD) else (31 - int j, MODE_RUNREV))"

subsection \<open>The Cylon cycle on four pixels\<close>

text \<open>
  The lit index over one cycle of eight ticks on a strip of four pixels, and the object
  at phase \<open>ph\<close> of that cycle: the colour sits at \<open>cylon_seq ! ph\<close>, the direction is
  forward in the first half. That \<^verbatim>\<open>update()\<close> steps through these is lemma \<open>cylon_step\<close>.
\<close>

definition cylon_seq :: "nat list" where
  "cylon_seq = [0, 1, 2, 3, 3, 2, 1, 0]"

definition cylon_state :: "CRGB \<Rightarrow> LEDControl \<Rightarrow> nat \<Rightarrow> LEDControl" where
  "cylon_state c s ph =
     s\<lparr>newMode := False, mode := MODE_CYLON, color := c,
       leds := (replicate 4 Black)[cylon_seq ! ph := c],
       curdir := (if ph < 4 then MODE_RUNFWD else MODE_RUNREV)\<rparr>"

subsection \<open>Rotation within the low bits\<close>

text \<open>
  The rotation as the specification words it: the word \<open>w\<close> is rotated left by one bit
  within its low \<open>m\<close> bits; the bit leaving position \<open>m - 1\<close> re-enters at bit 0, and no
  bit from \<open>m\<close> on is set. It is compared with what \<^verbatim>\<open>update()\<close> computes in
  \<open>marquee_rot\<close>.
\<close>

definition rot_left :: "nat \<Rightarrow> 32 word \<Rightarrow> 32 word" where
  "rot_left m w = take_bit m (push_bit 1 w) OR drop_bit (m - 1) (take_bit m w)"

section \<open>Loops and shifts in closed form\<close>

lemma fill_solid_full:
  "int (length xs) = n \<Longrightarrow> fill_solid xs n c = Some (replicate (length xs) c)"
  by (auto simp: fill_solid_def)

lemma for_up_rule:
  assumes "I lo x"
    and "\<And>i y. lo \<le> i \<Longrightarrow> i < hi \<Longrightarrow> I i y \<Longrightarrow> \<exists>z. body i y = Some z \<and> I (i + 1) z"
  shows "\<exists>z. for_up lo hi body x = Some z \<and> I (max lo hi) z"
  using assms
proof (induction lo hi body x rule: for_up.induct)
  case (1 lo hi body x)
  show ?case
  proof (cases "lo < hi")
    case False
    then show ?thesis using "1.prems"(1) by (simp add: for_up.simps max_def)
  next
    case True
    from "1.prems"(2)[of lo x] True "1.prems"(1)
    obtain y where y: "body lo x = Some y" "I (lo + 1) y" by auto
    have "\<exists>z. for_up (lo + 1) hi body y = Some z \<and> I (max (lo + 1) hi) z"
    proof (rule "1.IH"[OF True y(1) y(2)])
      fix i y' assume "lo + 1 \<le> i" "i < hi" "I i y'"
      then show "\<exists>z. body i y' = Some z \<and> I (i + 1) z"
        using "1.prems"(2)[of i y'] by simp
    qed
    moreover have "max (lo + 1) hi = max lo hi" using True by simp
    ultimately show ?thesis using True y(1)
      by (subst for_up.simps) simp
  qed
qed

lemma for_down_rule:
  assumes "I hi x"
    and "\<And>i y. 0 < i \<Longrightarrow> i \<le> hi \<Longrightarrow> I i y \<Longrightarrow> \<exists>z. body i y = Some z \<and> I (i - 1) z"
  shows "\<exists>z. for_down hi body x = Some z \<and> I (min hi 0) z"
  using assms
proof (induction hi body x rule: for_down.induct)
  case (1 hi body x)
  show ?case
  proof (cases "hi > 0")
    case False
    then show ?thesis using "1.prems"(1) by (simp add: for_down.simps min_def)
  next
    case True
    from "1.prems"(2)[of hi x] True "1.prems"(1)
    obtain y where y: "body hi x = Some y" "I (hi - 1) y" by auto
    have "\<exists>z. for_down (hi - 1) body y = Some z \<and> I (min (hi - 1) 0) z"
    proof (rule "1.IH"[OF True y(1) y(2)])
      fix i y' assume "0 < i" "i \<le> hi - 1" "I i y'"
      then show "\<exists>z. body i y' = Some z \<and> I (i - 1) z"
        using "1.prems"(2)[of i y'] by simp
    qed
    moreover have "min (hi - 1) 0 = min hi 0" using True by simp
    ultimately show ?thesis using True y(1)
      by (subst for_down.simps) simp
  qed
qed

lemma nat_int_pred: "nat (int n - 1) = n - 1"
  by simp

lemma nat_int_succ: "nat (int n + 1) = n + 1"
  by simp

lemma shift_down_loop:
  assumes "xs \<noteq> []"
  shows "for_down (int (length xs) - 1) (\<lambda>i ys. do { v \<leftarrow> get ys (i - 1); put ys i v }) xs
         = Some (hd xs # butlast xs)"
proof -
  let ?body = "\<lambda>i ys. do { v \<leftarrow> get ys (i - 1); put ys i v }"
  let ?I = "\<lambda>i ys. length ys = length xs \<and>
              (\<forall>j < length xs. ys ! j = (if i < int j then xs ! (j - 1) else xs ! j))"
  have "\<exists>z. for_down (int (length xs) - 1) ?body xs = Some z \<and> ?I (min (int (length xs) - 1) 0) z"
  proof (rule for_down_rule)
    show "?I (int (length xs) - 1) xs" by auto
  next
    fix i ys
    assume i: "0 < i" "i \<le> int (length xs) - 1" and inv: "?I i ys"
    define k where "k = nat i"
    have k: "i = int k" "0 < k" "k < length xs" using i by (auto simp: k_def)
    let ?z = "ys[k := ys ! (k - 1)]"
    have "?body i ys = Some ?z"
      using k inv by (simp add: get_def put_def nat_int_pred)
    moreover have "length ?z = length xs" using inv by simp
    moreover have "?z ! j = (if i - 1 < int j then xs ! (j - 1) else xs ! j)"
      if j: "j < length xs" for j
    proof (cases "j = k")
      case True
      have "ys ! (k - 1) = xs ! (k - 1)" using inv k by auto
      then show ?thesis using True k inv by simp
    next
      case False
      then have "?z ! j = ys ! j" by simp
      then show ?thesis using inv j False k by auto
    qed
    ultimately show "\<exists>z. ?body i ys = Some z \<and> ?I (i - 1) z" by blast
  qed
  then obtain z where z: "for_down (int (length xs) - 1) ?body xs = Some z"
    and len: "length z = length xs"
    and nth: "\<forall>j < length xs. z ! j = (if 0 < int j then xs ! (j - 1) else xs ! j)"
    using assms by (auto simp: min_def)
  have "z = hd xs # butlast xs"
  proof (rule nth_equalityI)
    show "length z = length (hd xs # butlast xs)" using len assms by simp
  next
    fix j assume "j < length z"
    then have j: "j < length xs" using len by simp
    show "z ! j = (hd xs # butlast xs) ! j"
    proof (cases j)
      case 0
      then show ?thesis using nth j assms by (simp add: hd_conv_nth)
    next
      case (Suc k)
      then show ?thesis using nth j by (simp add: nth_butlast)
    qed
  qed
  then show ?thesis using z by simp
qed

lemma shiftFwd_wf:
  assumes "strip_ok s"
  shows "shiftFwd s = Some (s\<lparr>leds := last (leds s) # butlast (leds s)\<rparr>)"
proof -
  from assms have ne: "leds s \<noteq> []" and n: "ledCount s = int (length (leds s))"
    by (auto simp: strip_ok_def)
  have g: "get (leds s) (int (length (leds s)) - 1) = Some (last (leds s))"
    using ne by (simp add: get_def last_conv_nth nat_int_pred)
  have p: "put (hd (leds s) # butlast (leds s)) 0 (last (leds s))
           = Some (last (leds s) # butlast (leds s))"
    by (simp add: put_def)
  show ?thesis
    unfolding shiftFwd_def n g shift_down_loop[OF ne] by (simp add: p)
qed

lemma shift_up_loop:
  assumes "xs \<noteq> []"
  shows "for_up 0 (int (length xs) - 1) (\<lambda>i ys. do { v \<leftarrow> get ys (i + 1); put ys i v }) xs
         = Some (tl xs @ [last xs])"
proof -
  let ?body = "\<lambda>i ys. do { v \<leftarrow> get ys (i + 1); put ys i v }"
  let ?I = "\<lambda>i ys. length ys = length xs \<and>
              (\<forall>j < length xs. ys ! j = (if int j < i then xs ! (j + 1) else xs ! j))"
  have "\<exists>z. for_up 0 (int (length xs) - 1) ?body xs = Some z \<and> ?I (max 0 (int (length xs) - 1)) z"
  proof (rule for_up_rule)
    show "?I 0 xs" by auto
  next
    fix i ys
    assume i: "0 \<le> i" "i < int (length xs) - 1" and inv: "?I i ys"
    define k where "k = nat i"
    have k: "i = int k" "k + 1 < length xs" using i by (auto simp: k_def)
    let ?z = "ys[k := ys ! (k + 1)]"
    have "?body i ys = Some ?z"
      using k inv by (simp add: get_def put_def nat_int_succ)
    moreover have "length ?z = length xs" using inv by simp
    moreover have "?z ! j = (if int j < i + 1 then xs ! (j + 1) else xs ! j)"
      if j: "j < length xs" for j
    proof (cases "j = k")
      case True
      have "ys ! (k + 1) = xs ! (k + 1)" using inv k by auto
      then show ?thesis using True k inv by simp
    next
      case False
      then have "?z ! j = ys ! j" by simp
      then show ?thesis using inv j False k by auto
    qed
    ultimately show "\<exists>z. ?body i ys = Some z \<and> ?I (i + 1) z" by blast
  qed
  then obtain z where z: "for_up 0 (int (length xs) - 1) ?body xs = Some z"
    and len: "length z = length xs"
    and nth: "\<forall>j < length xs. z ! j = (if int j < int (length xs) - 1 then xs ! (j + 1) else xs ! j)"
    using assms by (auto simp: max_def)
  have "z = tl xs @ [last xs]"
  proof (rule nth_equalityI)
    show "length z = length (tl xs @ [last xs])" using len assms by simp
  next
    fix j assume "j < length z"
    then have j: "j < length xs" using len by simp
    show "z ! j = (tl xs @ [last xs]) ! j"
    proof (cases "j < length xs - 1")
      case True
      then have "int j < int (length xs) - 1" by linarith
      then have "z ! j = xs ! (j + 1)" using nth j by simp
      then show ?thesis using True by (simp add: nth_append nth_tl)
    next
      case False
      then have e: "j = length xs - 1" using j by simp
      then have "z ! j = xs ! j" using nth j by simp
      then show ?thesis using e assms by (simp add: nth_append last_conv_nth)
    qed
  qed
  then show ?thesis using z by simp
qed

lemma shiftRev_wf:
  assumes "strip_ok s"
  shows "shiftRev s = Some (s\<lparr>leds := tl (leds s) @ [hd (leds s)]\<rparr>)"
proof -
  from assms have ne: "leds s \<noteq> []" and n: "ledCount s = int (length (leds s))"
    by (auto simp: strip_ok_def)
  have g: "get (leds s) 0 = Some (hd (leds s))"
    using ne by (simp add: get_def hd_conv_nth)
  have "(tl (leds s) @ [last (leds s)])[length (tl (leds s)) := hd (leds s)]
        = tl (leds s) @ [hd (leds s)]"
    by (simp only: list_update_length)
  then have p: "put (tl (leds s) @ [last (leds s)]) (int (length (leds s)) - 1) (hd (leds s))
           = Some (tl (leds s) @ [hd (leds s)])"
    using ne by (simp add: put_def nat_int_pred)
  show ?thesis
    unfolding shiftRev_def n g shift_up_loop[OF ne] by (simp add: p)
qed

lemma bit_set_iff: "0 \<le> i \<Longrightarrow> bit_set bm i \<longleftrightarrow> bit bm (nat i)"
  by (simp add: bit_set_def bit_iff_and_push_bit_not_eq_0)

lemma paint_set_closed:
  assumes "m \<le> int (length xs)"
  shows "paint_set bm c m xs
         = Some (map (\<lambda>j. if int j < m \<and> bit bm j then c else xs ! j) [0..<length xs])"
proof -
  let ?body = "\<lambda>i ys. if bit_set bm i then put ys i c else Some ys"
  let ?I = "\<lambda>i ys. length ys = length xs \<and>
              (\<forall>j < length xs. ys ! j = (if int j < i \<and> int j < m \<and> bit bm j then c else xs ! j))"
  have "\<exists>z. for_up 0 m ?body xs = Some z \<and> ?I (max 0 m) z"
  proof (rule for_up_rule)
    show "?I 0 xs" by auto
  next
    fix i ys
    assume i: "0 \<le> i" "i < m" and inv: "?I i ys"
    define k where "k = nat i"
    have k: "i = int k" "k < length xs" using i assms by (auto simp: k_def)
    let ?z = "if bit bm k then ys[k := c] else ys"
    have "?body i ys = Some ?z"
      using k inv i(1) by (simp add: bit_set_iff put_def)
    moreover have "length ?z = length xs" using inv by simp
    moreover have "?z ! j = (if int j < i + 1 \<and> int j < m \<and> bit bm j then c else xs ! j)"
      if j: "j < length xs" for j
    proof (cases "j = k")
      case True
      then show ?thesis using k inv i by auto
    next
      case False
      then have "?z ! j = ys ! j" by simp
      then show ?thesis using inv j False k by auto
    qed
    ultimately show "\<exists>z. ?body i ys = Some z \<and> ?I (i + 1) z" by blast
  qed
  then obtain z where z: "for_up 0 m ?body xs = Some z"
    and len: "length z = length xs"
    and nth: "\<forall>j < length xs. z ! j = (if int j < max 0 m \<and> int j < m \<and> bit bm j then c else xs ! j)"
    by auto
  have "z = map (\<lambda>j. if int j < m \<and> bit bm j then c else xs ! j) [0..<length xs]"
    using len nth by (intro nth_equalityI) auto
  then show ?thesis using z by (simp add: paint_set_def)
qed

lemma paint_all_closed:
  assumes "m \<le> int (length xs)"
  shows "paint_all bm c m xs
         = Some (map (\<lambda>j. if int j < m then (if bit bm j then c else Black) else xs ! j)
                   [0..<length xs])"
proof -
  let ?body = "\<lambda>i ys. if bit_set bm i then put ys i c else put ys i Black"
  let ?I = "\<lambda>i ys. length ys = length xs \<and>
              (\<forall>j < length xs. ys ! j =
                 (if int j < i \<and> int j < m then (if bit bm j then c else Black) else xs ! j))"
  have "\<exists>z. for_up 0 m ?body xs = Some z \<and> ?I (max 0 m) z"
  proof (rule for_up_rule)
    show "?I 0 xs" by auto
  next
    fix i ys
    assume i: "0 \<le> i" "i < m" and inv: "?I i ys"
    define k where "k = nat i"
    have k: "i = int k" "k < length xs" using i assms by (auto simp: k_def)
    let ?z = "ys[k := (if bit bm k then c else Black)]"
    have "?body i ys = Some ?z"
      using k inv i(1) by (simp add: bit_set_iff put_def)
    moreover have "length ?z = length xs" using inv by simp
    moreover have "?z ! j =
        (if int j < i + 1 \<and> int j < m then (if bit bm j then c else Black) else xs ! j)"
      if j: "j < length xs" for j
    proof (cases "j = k")
      case True
      then show ?thesis using k inv i by auto
    next
      case False
      then have "?z ! j = ys ! j" by simp
      then show ?thesis using inv j False k by auto
    qed
    ultimately show "\<exists>z. ?body i ys = Some z \<and> ?I (i + 1) z" by blast
  qed
  then obtain z where z: "for_up 0 m ?body xs = Some z"
    and len: "length z = length xs"
    and nth: "\<forall>j < length xs. z ! j =
        (if int j < max 0 m \<and> int j < m then (if bit bm j then c else Black) else xs ! j)"
    by auto
  have "z = map (\<lambda>j. if int j < m then (if bit bm j then c else Black) else xs ! j)
              [0..<length xs]"
    using len nth by (intro nth_equalityI) auto
  then show ?thesis using z by (simp add: paint_all_def)
qed

lemma fill_solid_wf: "strip_ok s \<Longrightarrow> fill_solid (leds s) (ledCount s) c = Some (replicate (length (leds s)) c)"
  by (simp add: strip_ok_def fill_solid_full)

section \<open>Construction\<close>

text \<open>
  C2 (as amended). The constructor has no check of \<open>num_leds\<close>: for every count, positive
  or not, construction yields an object in mode \<^verbatim>\<open>MODE_OFF\<close> with colour black that
  stores the count as given; no construction error exists.
\<close>

theorem construct_never_fails:
  "construct n xs b0 = Some (LEDControl_init n xs b0)
   \<and> getMode (LEDControl_init n xs b0) = MODE_OFF
   \<and> color (LEDControl_init n xs b0) = Black
   \<and> newMode (LEDControl_init n xs b0)
   \<and> ledCount (LEDControl_init n xs b0) = n"
  by (simp add: construct_def LEDControl_init_def getMode_def)

text \<open>C2 as stated fails: counts 0 and -3 give objects, not errors.\<close>

theorem construct_nonpositive_counterexample:
  "map_option getMode (construct 0 [] 0) = Some MODE_OFF
   \<and> map_option ledCount (construct (- 3) [] 0) = Some (- 3)"
  by (simp add: construct_def LEDControl_init_def getMode_def)

section \<open>Evaluation of closed examples\<close>

lemmas ev =
  update_def update_OFF_def update_ON_def update_RUNFWD_def update_RUNREV_def update_RAINB_def
  update_CYLON_def update_BITMAP_def update_MARQUEE_def update_BREATHE_def
  setOneColor_def setRunFwd_def setRunRev_def setRainbowFwd_def setRainbowRev_def setCylon_def
  setPattern_def setProgress_def setMarquee_def setBreathe_def
  LEDControl_init_def get_def put_def fill_solid_def dimming_def numdims_def cdiv_def
  shiftFwd_def shiftRev_def paint_set_def paint_all_def bit_set_def trunc100_def shl1_def
  wrap_shift_def lit_pixels_def for_up.simps for_down.simps Black_def Red_def eval_nat_numeral

section \<open>The dimming index stays inside the brightness map\<close>

lemma shiftFwd_config: "shiftFwd s = Some s' \<Longrightarrow> config s' = config s"
  by (auto simp: shiftFwd_def split: Option.bind_splits)

lemma shiftRev_config: "shiftRev s = Some s' \<Longrightarrow> config s' = config s"
  by (auto simp: shiftRev_def split: Option.bind_splits)

lemma update_OFF_config: "update_OFF s = Some s' \<Longrightarrow> config s' = config s"
  by (auto simp: update_OFF_def split: Option.bind_splits if_splits)

lemma update_ON_config: "update_ON s = Some s' \<Longrightarrow> config s' = config s"
  by (auto simp: update_ON_def split: Option.bind_splits if_splits)

lemma update_RUNFWD_config: "update_RUNFWD s = Some s' \<Longrightarrow> config s' = config s"
  by (auto simp: update_RUNFWD_def dest: shiftFwd_config split: Option.bind_splits if_splits)

lemma update_RUNREV_config: "update_RUNREV s = Some s' \<Longrightarrow> config s' = config s"
  by (auto simp: update_RUNREV_def dest: shiftRev_config split: Option.bind_splits if_splits)

lemma update_RAINB_config: "update_RAINB hsv m s = Some s' \<Longrightarrow> config s' = config s"
  by (auto simp: update_RAINB_def split: Option.bind_splits if_splits)

lemma update_CYLON_config: "update_CYLON s = Some s' \<Longrightarrow> config s' = config s"
  by (auto simp: update_CYLON_def dest: shiftFwd_config shiftRev_config
      split: Option.bind_splits if_splits)

lemma update_BITMAP_config: "update_BITMAP s = Some s' \<Longrightarrow> config s' = config s"
  by (auto simp: update_BITMAP_def split: Option.bind_splits if_splits)

lemma update_MARQUEE_config: "update_MARQUEE s = Some s' \<Longrightarrow> config s' = config s"
  by (auto simp: update_MARQUEE_def Let_def split: Option.bind_splits if_splits)

lemma update_BREATHE_config:
  assumes "update_BREATHE dim s = Some s'" "0 \<le> config s" "config s \<le> numdims - 1"
  shows "0 \<le> config s' \<and> config s' \<le> numdims - 1"
  using assms
  by (auto simp: update_BREATHE_def Let_def numdims_def split: Option.bind_splits if_splits)

lemma update_config:
  assumes "update hsv dim s = Some s'" "0 \<le> config s" "config s \<le> numdims - 1"
  shows "0 \<le> config s' \<and> config s' \<le> numdims - 1"
proof (cases "mode s")
  case MODE_BREATHE
  then show ?thesis using assms update_BREATHE_config[of dim s s'] by (simp add: update_def)
qed (use assms in \<open>auto simp: update_def dest: update_OFF_config update_ON_config
      update_RUNFWD_config update_RUNREV_config update_RAINB_config update_CYLON_config
      update_BITMAP_config update_MARQUEE_config\<close>)

lemma exec_config:
  assumes "exec hsv dim wide c s = Some s'" "0 \<le> config s" "config s \<le> numdims - 1"
  shows "0 \<le> config s' \<and> config s' \<le> numdims - 1"
proof (cases c)
  case Update
  then show ?thesis using assms update_config[of hsv dim s s'] by simp
qed (use assms in \<open>auto simp: setOneColor_def setRunFwd_def setRunRev_def setRainbowFwd_def
      setRainbowRev_def setCylon_def setPattern_def setProgress_def setMarquee_def
      setBreathe_def numdims_def Let_def\<close>)

lemma run_config:
  "run hsv dim wide cs s = Some s' \<Longrightarrow> 0 \<le> config s \<Longrightarrow> config s \<le> numdims - 1
   \<Longrightarrow> 0 \<le> config s' \<and> config s' \<le> numdims - 1"
proof (induction cs arbitrary: s)
  case Nil
  then show ?case by simp
next
  case (Cons c cs)
  from Cons.prems(1) obtain t where t: "exec hsv dim wide c s = Some t"
    and r: "run hsv dim wide cs t = Some s'"
    by (auto split: Option.bind_splits)
  from exec_config[OF t Cons.prems(2,3)] Cons.IH[OF r] show ?case by simp
qed

text \<open>
  C9. In every state reached from construction by setter and \<^verbatim>\<open>update()\<close> calls the
  dimming index \<^verbatim>\<open>_config\<close> lies in \<open>[0, numdims - 1]\<close>, that is in \<open>[0, 15]\<close>, and every
  single call preserves that range.
\<close>

theorem dimStep_in_range:
  "(run hsv dim wide cs (LEDControl_init n xs b0) = Some s
      \<longrightarrow> 0 \<le> config s \<and> config s \<le> numdims - 1)
   \<and> (0 \<le> config t \<and> config t \<le> numdims - 1 \<and> exec hsv dim wide c t = Some t'
      \<longrightarrow> 0 \<le> config t' \<and> config t' \<le> numdims - 1)"
proof -
  have "0 \<le> config s \<and> config s \<le> numdims - 1"
    if "run hsv dim wide cs (LEDControl_init n xs b0) = Some s"
    using run_config[OF that] by (simp add: LEDControl_init_def numdims_def)
  moreover have "0 \<le> config t' \<and> config t' \<le> numdims - 1"
    if "0 \<le> config t \<and> config t \<le> numdims - 1 \<and> exec hsv dim wide c t = Some t'"
    using that exec_config[of hsv dim wide c t t'] by simp
  ultimately show ?thesis by blast
qed

theorem dimStep_in_range_witness:
  "run hsv_plain nscale8_video wrap_shift [SetBreathe Red, Update, Update]
       (LEDControl_init 2 [Black, Black] 0)
     = Some \<lparr>ledCount = 2, leds = [nscale8_video Red 206, nscale8_video Red 206],
             newMode = False, mode = MODE_BREATHE, color = Red, bitmap = 0, config = 2,
             curdir = MODE_RUNFWD\<rparr>
   \<and> (0::int) \<le> 2 \<and> (2::int) \<le> numdims - 1
   \<and> exec hsv_plain nscale8_video wrap_shift Update
        \<lparr>ledCount = 2, leds = [nscale8_video Red 206, nscale8_video Red 206],
         newMode = False, mode = MODE_BREATHE, color = Red, bitmap = 0, config = 2,
         curdir = MODE_RUNFWD\<rparr>
     = Some \<lparr>ledCount = 2, leds = [nscale8_video Red 179, nscale8_video Red 179],
             newMode = False, mode = MODE_BREATHE, color = Red, bitmap = 0, config = 3,
             curdir = MODE_RUNFWD\<rparr>
   \<and> (0::int) \<le> 3 \<and> (3::int) \<le> numdims - 1"
proof -
  let ?S = "\<lparr>ledCount = 2, leds = [nscale8_video Red 206, nscale8_video Red 206],
             newMode = False, mode = MODE_BREATHE, color = Red, bitmap = 0, config = 2,
             curdir = MODE_RUNFWD\<rparr>"
  let ?S' = "\<lparr>ledCount = 2, leds = [nscale8_video Red 179, nscale8_video Red 179],
             newMode = False, mode = MODE_BREATHE, color = Red, bitmap = 0, config = 3,
             curdir = MODE_RUNFWD\<rparr>"
  have h1: "run hsv_plain nscale8_video wrap_shift [SetBreathe Red, Update, Update]
       (LEDControl_init 2 [Black, Black] 0) = Some ?S"
    by (simp add: ev)
  have h2: "exec hsv_plain nscale8_video wrap_shift Update ?S = Some ?S'"
    by (simp add: ev)
  from dimStep_in_range[of hsv_plain nscale8_video wrap_shift "[SetBreathe Red, Update, Update]"
      2 "[Black, Black]" 0 ?S ?S Update ?S'] h1 h2
  show ?thesis by simp
qed

section \<open>Static modes\<close>

lemma ticks_Some_fixed:
  "update hsv dim s = Some s \<Longrightarrow> ticks hsv dim n s = Some s"
  by (induction n) simp_all

text \<open>
  C8. In \<^verbatim>\<open>MODE_ON\<close> (solid colour) and \<^verbatim>\<open>MODE_BITMAP\<close> (pattern, progress bar) the first
  tick returns, and any number of further ticks with no setter call in between leaves
  the object, and so every pixel of the buffer, exactly as the first tick left it.
\<close>

theorem static_modes_idempotent:
  assumes "strip_ok s" and "mode s = MODE_ON \<or> mode s = MODE_BITMAP"
  shows "\<exists>s1. update hsv dim s = Some s1 \<and> (\<forall>n. ticks hsv dim n s1 = Some s1)"
proof -
  have len: "min (ledCount s) 32 \<le> int (length (replicate (length (leds s)) Black))"
    using assms(1) by (simp add: strip_ok_def)
  from assms(2) show ?thesis
  proof
    assume m: "mode s = MODE_ON"
    show ?thesis
    proof (cases "newMode s")
      case True
      let ?s1 = "s\<lparr>leds := replicate (length (leds s)) (color s), newMode := False\<rparr>"
      have "update hsv dim s = Some ?s1"
        using m True fill_solid_wf[OF assms(1)] by (simp add: update_def update_ON_def)
      moreover have "update hsv dim ?s1 = Some ?s1"
        using m by (simp add: update_def update_ON_def)
      ultimately show ?thesis using ticks_Some_fixed by blast
    next
      case False
      then have "update hsv dim s = Some s" using m by (simp add: update_def update_ON_def)
      then show ?thesis using ticks_Some_fixed by blast
    qed
  next
    assume m: "mode s = MODE_BITMAP"
    show ?thesis
    proof (cases "newMode s")
      case True
      obtain ys where ys: "paint_set (bitmap s) (color s) (min (ledCount s) 32)
                             (replicate (length (leds s)) Black) = Some ys"
        using paint_set_closed[OF len] by blast
      let ?s1 = "s\<lparr>leds := ys, newMode := False\<rparr>"
      have "update hsv dim s = Some ?s1"
        using m True fill_solid_wf[OF assms(1)] ys by (simp add: update_def update_BITMAP_def)
      moreover have "update hsv dim ?s1 = Some ?s1"
        using m by (simp add: update_def update_BITMAP_def)
      ultimately show ?thesis using ticks_Some_fixed by blast
    next
      case False
      then have "update hsv dim s = Some s" using m by (simp add: update_def update_BITMAP_def)
      then show ?thesis using ticks_Some_fixed by blast
    qed
  qed
qed

theorem static_modes_idempotent_witness:
  "strip_ok (setPattern Red 5 (LEDControl_init 3 [Red, Red, Red] 0))
   \<and> (mode (setPattern Red 5 (LEDControl_init 3 [Red, Red, Red] 0)) = MODE_ON
      \<or> mode (setPattern Red 5 (LEDControl_init 3 [Red, Red, Red] 0)) = MODE_BITMAP)
   \<and> (\<exists>s1. update hsv_plain nscale8_video (setPattern Red 5 (LEDControl_init 3 [Red, Red, Red] 0))
              = Some s1
            \<and> (\<forall>n. ticks hsv_plain nscale8_video n s1 = Some s1))"
proof -
  have h1: "strip_ok (setPattern Red 5 (LEDControl_init 3 [Red, Red, Red] 0))"
    by (simp add: strip_ok_def setPattern_def LEDControl_init_def)
  have h2: "mode (setPattern Red 5 (LEDControl_init 3 [Red, Red, Red] 0)) = MODE_ON
      \<or> mode (setPattern Red 5 (LEDControl_init 3 [Red, Red, Red] 0)) = MODE_BITMAP"
    by (simp add: setPattern_def)
  from static_modes_idempotent[OF h1 h2, of hsv_plain nscale8_video] h1 h2
  show ?thesis by blast
qed

section \<open>Breathe\<close>

lemma breathe_step:
  assumes "strip_ok t" "mode t = MODE_BREATHE" "\<not> newMode t" "0 \<le> config t" "config t \<le> 15"
  shows "update hsv dim t =
     Some (if curdir t = MODE_RUNFWD then
             (if config t = 15
              then t\<lparr>leds := replicate (length (leds t)) (dim (color t) (dimming ! nat (config t))),
                      curdir := MODE_RUNREV\<rparr>
              else t\<lparr>leds := replicate (length (leds t)) (dim (color t) (dimming ! nat (config t))),
                      config := config t + 1\<rparr>)
           else
             (if config t = 0
              then t\<lparr>leds := replicate (length (leds t)) (dim (color t) (dimming ! nat (config t))),
                      curdir := MODE_RUNFWD\<rparr>
              else t\<lparr>leds := replicate (length (leds t)) (dim (color t) (dimming ! nat (config t))),
                      config := config t - 1\<rparr>))"
proof -
  have g: "get dimming (config t) = Some (dimming ! nat (config t))"
    using assms(4,5) by (simp add: get_def dimming_def)
  show ?thesis
    using assms(2,3) fill_solid_wf[OF assms(1)]
    by (simp add: update_def update_BREATHE_def g numdims_def Let_def)
qed

lemma breathe_phase_Suc:
  "breathe_phase (Suc k) =
     (case breathe_phase k of (cf, d) \<Rightarrow>
        if d = MODE_RUNFWD then (if cf = 15 then (cf, MODE_RUNREV) else (cf + 1, d))
        else (if cf = 0 then (cf, MODE_RUNFWD) else (cf - 1, d)))"
proof -
  have "Suc k mod 32 = (if k mod 32 = 31 then 0 else Suc (k mod 32))"
    by (simp add: mod_Suc)
  moreover have "k mod 32 < 32" by simp
  ultimately show ?thesis
    by (auto simp: breathe_phase_def Let_def)
qed

lemma breathe_phase_range: "0 \<le> fst (breathe_phase k) \<and> fst (breathe_phase k) \<le> 15"
proof -
  have "k mod 32 < 32" by simp
  then show ?thesis by (auto simp: breathe_phase_def Let_def)
qed

lemma ticks_Suc_right:
  "ticks hsv dim (Suc n) s = ticks hsv dim n s \<bind> update hsv dim"
proof (induction n arbitrary: s)
  case 0
  show ?case by (cases "update hsv dim s") simp_all
next
  case (Suc n)
  show ?case
  proof (cases "update hsv dim s")
    case None
    then show ?thesis by simp
  next
    case (Some t)
    then show ?thesis using Suc.IH[of t] by simp
  qed
qed

lemma breathe_first:
  assumes "strip_ok s"
  shows "update hsv dim (setBreathe c s) =
     Some (s\<lparr>newMode := False, mode := MODE_BREATHE, color := c,
            leds := replicate (length (leds s)) (dim c 235), config := 1,
            curdir := MODE_RUNFWD\<rparr>)"
proof -
  have g: "get dimming 0 = Some 235" by (simp add: get_def dimming_def)
  have f: "fill_solid (leds s) (ledCount s) (dim c 235)
           = Some (replicate (length (leds s)) (dim c 235))"
    by (rule fill_solid_wf[OF assms])
  show ?thesis
    by (simp add: update_def update_BREATHE_def setBreathe_def g f numdims_def)
qed

lemma breathe_closed:
  assumes "strip_ok s"
  shows "ticks hsv dim (Suc k) (setBreathe c s) =
     Some (s\<lparr>newMode := False, mode := MODE_BREATHE, color := c,
            leds := replicate (length (leds s)) (dim c (dimming ! nat (fst (breathe_phase k)))),
            config := fst (breathe_phase (Suc k)), curdir := snd (breathe_phase (Suc k))\<rparr>)"
proof (induction k)
  case 0
  show ?case
    by (simp add: breathe_first[OF assms] breathe_phase_def dimming_def)
next
  case (Suc k)
  let ?t = "s\<lparr>newMode := False, mode := MODE_BREATHE, color := c,
            leds := replicate (length (leds s)) (dim c (dimming ! nat (fst (breathe_phase k)))),
            config := fst (breathe_phase (Suc k)), curdir := snd (breathe_phase (Suc k))\<rparr>"
  have okt: "strip_ok ?t" using assms by (simp add: strip_ok_def)
  have rng: "0 \<le> config ?t" "config ?t \<le> 15" using breathe_phase_range[of "Suc k"] by simp_all
  have "ticks hsv dim (Suc (Suc k)) (setBreathe c s)
        = ticks hsv dim (Suc k) (setBreathe c s) \<bind> update hsv dim"
    by (rule ticks_Suc_right)
  also have "\<dots> = update hsv dim ?t"
    by (simp only: Suc.IH Option.bind.simps)
  also have "\<dots> = Some (s\<lparr>newMode := False, mode := MODE_BREATHE, color := c,
            leds := replicate (length (leds s)) (dim c (dimming ! nat (fst (breathe_phase (Suc k))))),
            config := fst (breathe_phase (Suc (Suc k))),
            curdir := snd (breathe_phase (Suc (Suc k)))\<rparr>)"
    by (subst breathe_step[OF okt _ _ rng])
       (auto simp: breathe_phase_Suc[of "Suc k"] split: prod.splits)
  finally show ?case .
qed


lemma breathe_phase_vals:
  "breathe_phase 0 = (0, MODE_RUNFWD)" "breathe_phase (Suc 0) = (1, MODE_RUNFWD)"
  "breathe_phase 15 = (15, MODE_RUNFWD)" "breathe_phase 16 = (15, MODE_RUNREV)"
  "breathe_phase 17 = (14, MODE_RUNREV)"
  "breathe_phase 29 = (2, MODE_RUNREV)" "breathe_phase 30 = (1, MODE_RUNREV)"
  "breathe_phase 31 = (0, MODE_RUNREV)" "breathe_phase 32 = (0, MODE_RUNFWD)"
  by (simp_all add: breathe_phase_def)

lemma breathe_phase_period: "breathe_phase (k + 32) = breathe_phase k"
  by (simp add: breathe_phase_def)

lemma breathe_phase_first:
  "0 < k \<Longrightarrow> k < 32 \<Longrightarrow> breathe_phase k \<noteq> (0, MODE_RUNFWD)"
  by (auto simp: breathe_phase_def Let_def)

lemma ticks_add:
  "ticks hsv dim (m + n) s = ticks hsv dim m s \<bind> ticks hsv dim n"
proof (induction m arbitrary: s)
  case 0
  show ?case by simp
next
  case (Suc m)
  show ?case
  proof (cases "update hsv dim s")
    case None
    then show ?thesis by simp
  next
    case (Some t)
    then show ?thesis using Suc.IH[of t] by simp
  qed
qed

text \<open>
  C1 (as amended). After \<^verbatim>\<open>setBreathe\<close> on a strip of \<open>N > 0\<close> pixels every tick returns,
  and after exactly \<open>2 * numdims = 32\<close> ticks, and after no smaller positive number,
  \<^verbatim>\<open>_config\<close> and \<^verbatim>\<open>_curdir\<close> are back at the values \<^verbatim>\<open>setBreathe\<close> set (0, forward). The
  colour written by tick 32 is the colour written by tick 1 (level 235), ticks 16 and 17
  both write the dimmest level 10: one tick of hold at each extreme. From the first tick
  on, the whole object repeats with period 32. After 30 ticks \<^verbatim>\<open>_config\<close> is 1 and the
  direction is reverse.
\<close>

theorem breathe_period:
  assumes "strip_ok s"
  shows "\<exists>s1 s16 s17 s30 s32.
           ticks hsv dim 1 (setBreathe c s) = Some s1
         \<and> ticks hsv dim 16 (setBreathe c s) = Some s16
         \<and> ticks hsv dim 17 (setBreathe c s) = Some s17
         \<and> ticks hsv dim 30 (setBreathe c s) = Some s30
         \<and> ticks hsv dim 32 (setBreathe c s) = Some s32
         \<and> config s32 = config (setBreathe c s) \<and> curdir s32 = curdir (setBreathe c s)
         \<and> leds s32 = leds s1 \<and> leds s1 = replicate (length (leds s)) (dim c 235)
         \<and> leds s17 = leds s16 \<and> leds s16 = replicate (length (leds s)) (dim c 10)
         \<and> config s30 = 1 \<and> curdir s30 = MODE_RUNREV
         \<and> (\<forall>n. ticks hsv dim (n + 33) (setBreathe c s) = ticks hsv dim (n + 1) (setBreathe c s))
         \<and> (\<forall>k sk. 0 < k \<and> k < 32 \<and> ticks hsv dim k (setBreathe c s) = Some sk
               \<longrightarrow> \<not> (config sk = 0 \<and> curdir sk = MODE_RUNFWD))"
proof -
  note cl = breathe_closed[OF assms, of hsv dim _ c]
  have t1: "ticks hsv dim 1 (setBreathe c s) = Some (s\<lparr>newMode := False, mode := MODE_BREATHE, color := c,
            leds := replicate (length (leds s)) (dim c 235), config := 1, curdir := MODE_RUNFWD\<rparr>)"
    using cl[of 0] by (simp add: breathe_phase_vals dimming_def del: ticks.simps)
  have t16: "ticks hsv dim 16 (setBreathe c s) = Some (s\<lparr>newMode := False, mode := MODE_BREATHE, color := c,
            leds := replicate (length (leds s)) (dim c 10), config := 15, curdir := MODE_RUNREV\<rparr>)"
    using cl[of 15] by (simp add: breathe_phase_vals dimming_def del: ticks.simps)
  have t17: "ticks hsv dim 17 (setBreathe c s) = Some (s\<lparr>newMode := False, mode := MODE_BREATHE, color := c,
            leds := replicate (length (leds s)) (dim c 10), config := 14, curdir := MODE_RUNREV\<rparr>)"
    using cl[of 16] by (simp add: breathe_phase_vals dimming_def del: ticks.simps)
  have t30: "ticks hsv dim 30 (setBreathe c s) = Some (s\<lparr>newMode := False, mode := MODE_BREATHE, color := c,
            leds := replicate (length (leds s)) (dim c 179), config := 1, curdir := MODE_RUNREV\<rparr>)"
    using cl[of 29] by (simp add: breathe_phase_vals dimming_def del: ticks.simps)
  have t32: "ticks hsv dim 32 (setBreathe c s) = Some (s\<lparr>newMode := False, mode := MODE_BREATHE, color := c,
            leds := replicate (length (leds s)) (dim c 235), config := 0, curdir := MODE_RUNFWD\<rparr>)"
    using cl[of 31] by (simp add: breathe_phase_vals dimming_def del: ticks.simps)
  have per: "ticks hsv dim (n + 33) (setBreathe c s) = ticks hsv dim (n + 1) (setBreathe c s)" for n
  proof -
    have "ticks hsv dim (Suc (n + 32)) (setBreathe c s) = ticks hsv dim (Suc n) (setBreathe c s)"
      unfolding cl using breathe_phase_period[of n] breathe_phase_period[of "Suc n"] by simp
    moreover have "n + 33 = Suc (n + 32)" "n + 1 = Suc n" by simp_all
    ultimately show ?thesis by (simp only:)
  qed
  have first: "\<not> (config sk = 0 \<and> curdir sk = MODE_RUNFWD)"
    if "0 < k \<and> k < 32 \<and> ticks hsv dim k (setBreathe c s) = Some sk" for k sk
  proof -
    from that obtain j where j: "k = Suc j" by (cases k) auto
    from that cl[of j] j have "(config sk, curdir sk) = breathe_phase k" by auto
    then show ?thesis using breathe_phase_first[of k] that by auto
  qed
  show ?thesis
    unfolding t1 t16 t17 t30 t32 using per first by (simp add: setBreathe_def del: ticks.simps)
qed

theorem breathe_period_witness:
  "strip_ok (LEDControl_init 1 [Black] 0)
   \<and> (\<exists>s1 s16 s17 s30 s32.
           ticks hsv_plain nscale8_video 1 (setBreathe Red (LEDControl_init 1 [Black] 0)) = Some s1
         \<and> ticks hsv_plain nscale8_video 16 (setBreathe Red (LEDControl_init 1 [Black] 0)) = Some s16
         \<and> ticks hsv_plain nscale8_video 17 (setBreathe Red (LEDControl_init 1 [Black] 0)) = Some s17
         \<and> ticks hsv_plain nscale8_video 30 (setBreathe Red (LEDControl_init 1 [Black] 0)) = Some s30
         \<and> ticks hsv_plain nscale8_video 32 (setBreathe Red (LEDControl_init 1 [Black] 0)) = Some s32
         \<and> config s32 = 0 \<and> curdir s32 = MODE_RUNFWD
         \<and> leds s32 = leds s1 \<and> leds s1 = [nscale8_video Red 235]
         \<and> leds s17 = leds s16 \<and> leds s16 = [nscale8_video Red 10]
         \<and> config s30 = 1 \<and> curdir s30 = MODE_RUNREV)"
proof -
  have h: "strip_ok (LEDControl_init 1 [Black] 0)"
    by (simp add: strip_ok_def LEDControl_init_def)
  have c: "config (setBreathe Red (LEDControl_init 1 [Black] 0)) = 0"
    "curdir (setBreathe Red (LEDControl_init 1 [Black] 0)) = MODE_RUNFWD"
    "length (leds (LEDControl_init 1 [Black] 0)) = 1"
    by (simp_all add: setBreathe_def LEDControl_init_def)
  from breathe_period[OF h, of hsv_plain nscale8_video Red] h
  show ?thesis unfolding c by (auto simp del: ticks.simps)
qed

text \<open>
  C1 as stated fails: 30 ticks after \<^verbatim>\<open>setBreathe\<close> the index is 1 and the direction is
  reverse, not 0 and forward, and tick 30 wrote level 179 where tick 1 wrote level 235.
\<close>

theorem breathe_30_ticks_counterexample:
  "ticks hsv_plain nscale8_video 30 (setBreathe Red (LEDControl_init 1 [Black] 0))
     = Some \<lparr>ledCount = 1, leds = [\<lparr>r = 179, g = 0, b = 0\<rparr>], newMode = False,
             mode = MODE_BREATHE, color = Red, bitmap = 0, config = 1, curdir = MODE_RUNREV\<rparr>
   \<and> ticks hsv_plain nscale8_video 1 (setBreathe Red (LEDControl_init 1 [Black] 0))
     = Some \<lparr>ledCount = 1, leds = [\<lparr>r = 235, g = 0, b = 0\<rparr>], newMode = False,
             mode = MODE_BREATHE, color = Red, bitmap = 0, config = 1, curdir = MODE_RUNFWD\<rparr>"
proof -
  have h: "strip_ok (LEDControl_init 1 [Black] 0)"
    by (simp add: strip_ok_def LEDControl_init_def)
  have d: "nscale8_video Red 179 = \<lparr>r = 179, g = 0, b = 0\<rparr>"
    "nscale8_video Red 235 = \<lparr>r = 235, g = 0, b = 0\<rparr>"
    by (simp_all add: nscale8_video_def scale8_video_def Red_def)
  have "ticks hsv_plain nscale8_video (Suc 29) (setBreathe Red (LEDControl_init 1 [Black] 0))
     = Some \<lparr>ledCount = 1, leds = [\<lparr>r = 179, g = 0, b = 0\<rparr>], newMode = False,
             mode = MODE_BREATHE, color = Red, bitmap = 0, config = 1, curdir = MODE_RUNREV\<rparr>"
    unfolding breathe_closed[OF h]
    by (simp add: breathe_phase_vals dimming_def LEDControl_init_def d)
  moreover
  have "ticks hsv_plain nscale8_video (Suc 0) (setBreathe Red (LEDControl_init 1 [Black] 0))
     = Some \<lparr>ledCount = 1, leds = [\<lparr>r = 235, g = 0, b = 0\<rparr>], newMode = False,
             mode = MODE_BREATHE, color = Red, bitmap = 0, config = 1, curdir = MODE_RUNFWD\<rparr>"
    unfolding breathe_closed[OF h]
    by (simp add: breathe_phase_vals dimming_def LEDControl_init_def d)
  ultimately show ?thesis by (simp del: ticks.simps)
qed

section \<open>Pattern and progress bar\<close>

lemma bitmap_first:
  assumes "strip_ok s" "mode s = MODE_BITMAP" "newMode s"
  shows "update hsv dim s =
     Some (s\<lparr>leds := map (\<lambda>j. if bit (bitmap s) j then color s else Black) [0..<length (leds s)],
            newMode := False\<rparr>)"
proof -
  let ?xs = "replicate (length (leds s)) Black"
  have len: "min (ledCount s) 32 \<le> int (length ?xs)"
    using assms(1) by (simp add: strip_ok_def)
  have "map (\<lambda>j. if int j < min (ledCount s) 32 \<and> bit (bitmap s) j then color s else ?xs ! j)
          [0..<length ?xs]
        = map (\<lambda>j. if bit (bitmap s) j then color s else Black) [0..<length (leds s)]"
    using assms(1) by (auto simp: strip_ok_def dest: bit_imp_le_length)
  then have "paint_set (bitmap s) (color s) (min (ledCount s) 32) ?xs
        = Some (map (\<lambda>j. if bit (bitmap s) j then color s else Black) [0..<length (leds s)])"
    using paint_set_closed[OF len] by simp
  then show ?thesis
    using assms(2,3) fill_solid_wf[OF assms(1)]
    by (simp add: update_def update_BITMAP_def)
qed

lemma mask_bar:
  assumes "n \<le> N" "n \<le> 32"
  shows "map (\<lambda>j. if bit (mask n :: 32 word) j then c else d) [0..<N]
         = replicate n c @ replicate (N - n) d"
  using assms by (intro nth_equalityI) (auto simp: bit_mask_iff nth_append)

lemma setProgress_clamped:
  "setProgress wide c p s = setProgress wide c (max 0 (min 100 p)) s"
  by (simp add: setProgress_def Let_def max_def min_def)

lemma setProgress_mask:
  assumes "0 \<le> ledCount s" "ledCount s * max 0 (min 100 p) < 3200"
  shows "setProgress wide c p s =
     s\<lparr>newMode := True, mode := MODE_BITMAP, color := c,
       bitmap := mask (nat (ledCount s * max 0 (min 100 p) div 100))\<rparr>"
proof -
  let ?q = "max 0 (min 100 p)"
  have q: "(if (if 100 < p then 100 else p) < 0 then 0 else if 100 < p then 100 else p) = ?q"
    by (simp add: max_def min_def)
  have nn: "0 \<le> ledCount s * ?q" using assms(1) by simp
  have lt: "ledCount s * ?q div 100 < 32" using assms(2) by simp
  have ge: "0 \<le> ledCount s * ?q div 100" using nn by simp
  have "shl1 wide (ledCount s * ?q div 100) - 1 = mask (nat (ledCount s * ?q div 100))"
    using lt ge by (simp add: shl1_def mask_eq_exp_minus_1)
  then show ?thesis
    using nn by (simp add: setProgress_def Let_def q trunc100_def)
qed

lemma bitmap_mask_first:
  assumes "strip_ok s" "0 \<le> lit" "lit < 32" "lit \<le> ledCount s"
  shows "update hsv dim (s\<lparr>newMode := True, mode := MODE_BITMAP, color := c,
                            bitmap := mask (nat lit)\<rparr>)
         = Some (s\<lparr>newMode := False, mode := MODE_BITMAP, color := c, bitmap := mask (nat lit),
                   leds := replicate (nat lit) c @ replicate (length (leds s) - nat lit) Black\<rparr>)"
proof -
  let ?t = "s\<lparr>newMode := True, mode := MODE_BITMAP, color := c, bitmap := mask (nat lit)\<rparr>"
  have okt: "strip_ok ?t" using assms(1) by (simp add: strip_ok_def)
  have n1: "nat lit \<le> length (leds s)" using assms by (simp add: strip_ok_def) linarith
  have n2: "nat lit \<le> 32" using assms(3) by linarith
  have "update hsv dim ?t = Some (?t\<lparr>leds :=
               map (\<lambda>j. if bit (mask (nat lit) :: 32 word) j then c else Black)
                 [0..<length (leds s)], newMode := False\<rparr>)"
    using bitmap_first[OF okt, of hsv dim] by simp
  then show ?thesis
    by (simp add: mask_bar[OF n1 n2])
qed

lemma bit_mask_lit:
  "0 \<le> lit \<Longrightarrow> lit < 32 \<Longrightarrow> bit (mask (nat lit) :: 32 word) j \<longleftrightarrow> int j < lit"
  by (auto simp: bit_mask_iff)

lemma progress_wrap:
  assumes "strip_ok s" "32 \<le> ledCount s" "100 \<le> p"
  shows "setProgress wrap_shift c p s
           = s\<lparr>newMode := True, mode := MODE_BITMAP, color := c,
               bitmap := mask (nat (ledCount s mod 32))\<rparr>"
    and "update hsv dim (setProgress wrap_shift c p s)
           = Some (s\<lparr>newMode := False, mode := MODE_BITMAP, color := c,
                     bitmap := mask (nat (ledCount s mod 32)),
                     leds := replicate (nat (ledCount s mod 32)) c
                           @ replicate (length (leds s) - nat (ledCount s mod 32)) Black\<rparr>)"
proof -
  have q: "(if (if 100 < p then 100 else p) < 0 then 0 else if 100 < p then 100 else p) = 100"
    using assms(3) by simp
  have "shl1 wrap_shift (ledCount s) - 1 = mask (nat (ledCount s mod 32))"
    using assms(2) by (simp add: shl1_def wrap_shift_def mask_eq_exp_minus_1)
  then show sp: "setProgress wrap_shift c p s
           = s\<lparr>newMode := True, mode := MODE_BITMAP, color := c,
               bitmap := mask (nat (ledCount s mod 32))\<rparr>"
    using assms(2) by (simp add: setProgress_def Let_def q trunc100_def)
  have "ledCount s mod 32 \<le> ledCount s" using assms(2) by (simp add: zmod_le_nonneg_dividend)
  then show "update hsv dim (setProgress wrap_shift c p s)
           = Some (s\<lparr>newMode := False, mode := MODE_BITMAP, color := c,
                     bitmap := mask (nat (ledCount s mod 32)),
                     leds := replicate (nat (ledCount s mod 32)) c
                           @ replicate (length (leds s) - nat (ledCount s mod 32)) Black\<rparr>)"
    unfolding sp using bitmap_mask_first[OF assms(1), of "ledCount s mod 32" hsv dim c] by simp
qed

lemma progress_never_beyond_32:
  assumes "strip_ok s"
  shows "\<exists>s'. update hsv dim (setProgress wide c p s) = Some s'
           \<and> (\<forall>j. 32 \<le> j \<and> j < length (leds s) \<longrightarrow> leds s' ! j = Black)"
proof -
  let ?t = "setProgress wide c p s"
  have okt: "strip_ok ?t" "mode ?t = MODE_BITMAP" "newMode ?t" "length (leds ?t) = length (leds s)"
    using assms by (simp_all add: strip_ok_def setProgress_def Let_def)
  have "\<not> bit (bitmap ?t) j" if "32 \<le> j" for j
    using that bit_imp_le_length[of "bitmap ?t" j] by auto
  then show ?thesis
    unfolding bitmap_first[OF okt(1,2,3)] okt(4) by simp
qed

text \<open>
  C3 (as amended). On a strip of \<open>N > 0\<close> pixels, for every colour, every prior state and
  every percent whose clamped value \<open>q = max 0 (min 100 percent)\<close> gives
  \<open>lit = N * q div 100 < 32\<close> (that is \<open>N * q < 3200\<close>; every percent when \<open>N < 32\<close>):
  \<^verbatim>\<open>setProgress\<close> stores the bitmap whose set bits are exactly \<open>0..lit-1\<close>, the next tick
  returns and leaves pixels \<open>0..lit-1\<close> in the colour and all others black, and the call
  is the same as the call with the clamped percent (150 as 100, -5 as 0).
\<close>

theorem progress_bar:
  assumes "strip_ok s" and "ledCount s * max 0 (min 100 p) < 3200"
  shows "\<exists>s'. update hsv dim (setProgress wide c p s) = Some s'
     \<and> (\<forall>j. bit (bitmap (setProgress wide c p s)) j
              \<longleftrightarrow> int j < ledCount s * max 0 (min 100 p) div 100)
     \<and> leds s' = replicate (nat (ledCount s * max 0 (min 100 p) div 100)) c
                @ replicate (length (leds s) - nat (ledCount s * max 0 (min 100 p) div 100)) Black
     \<and> setProgress wide c p s = setProgress wide c (max 0 (min 100 p)) s"
proof -
  define lit where "lit = ledCount s * max 0 (min 100 p) div 100"
  have N: "0 < ledCount s" using assms(1) by (simp add: strip_ok_def)
  have sp: "setProgress wide c p s
            = s\<lparr>newMode := True, mode := MODE_BITMAP, color := c, bitmap := mask (nat lit)\<rparr>"
    unfolding lit_def using setProgress_mask[OF _ assms(2)] N by simp
  have "0 \<le> ledCount s * max 0 (min 100 p)" using N by simp
  then have ge: "0 \<le> lit" unfolding lit_def by simp
  have lt: "lit < 32" unfolding lit_def using assms(2) by simp
  have "ledCount s * max 0 (min 100 p) \<le> ledCount s * 100"
    using N by (intro mult_left_mono) simp_all
  then have le: "lit \<le> ledCount s" unfolding lit_def by simp
  note up = bitmap_mask_first[OF assms(1) ge lt le, of hsv dim c]
  have "\<exists>s'. update hsv dim (setProgress wide c p s) = Some s'
     \<and> (\<forall>j. bit (bitmap (setProgress wide c p s)) j \<longleftrightarrow> int j < lit)
     \<and> leds s' = replicate (nat lit) c @ replicate (length (leds s) - nat lit) Black"
    unfolding sp up using bit_mask_lit[OF ge lt] by simp
  then show ?thesis
    unfolding lit_def using setProgress_clamped[of wide c p s] by blast
qed

theorem progress_bar_witness:
  "strip_ok (setCylon Red (LEDControl_init 10 (replicate 10 Red) 0))
   \<and> ledCount (setCylon Red (LEDControl_init 10 (replicate 10 Red) 0)) * max 0 (min 100 50) < 3200
   \<and> (\<exists>s'. update hsv_plain nscale8_video
              (setProgress wrap_shift Red 50 (setCylon Red (LEDControl_init 10 (replicate 10 Red) 0)))
             = Some s'
          \<and> leds s' = replicate 5 Red @ replicate 5 Black)
   \<and> setProgress wrap_shift Red 150 (setCylon Red (LEDControl_init 10 (replicate 10 Red) 0))
     = setProgress wrap_shift Red 100 (setCylon Red (LEDControl_init 10 (replicate 10 Red) 0))
   \<and> setProgress wrap_shift Red (- 5) (setCylon Red (LEDControl_init 10 (replicate 10 Red) 0))
     = setProgress wrap_shift Red 0 (setCylon Red (LEDControl_init 10 (replicate 10 Red) 0))"
proof -
  let ?S = "setCylon Red (LEDControl_init 10 (replicate 10 Red) 0)"
  have ok: "strip_ok ?S" by (simp add: strip_ok_def setCylon_def LEDControl_init_def)
  have n: "ledCount ?S = 10" "length (leds ?S) = 10"
    by (simp_all add: setCylon_def LEDControl_init_def)
  have h50: "ledCount ?S * max 0 (min 100 50) < 3200" by (simp add: n)
  have h150: "ledCount ?S * max 0 (min 100 150) < 3200" by (simp add: n)
  have hm5: "ledCount ?S * max 0 (min 100 (- 5)) < 3200" by (simp add: n)
  from progress_bar[OF ok h50, of hsv_plain nscale8_video wrap_shift Red]
       progress_bar[OF ok h150, of hsv_plain nscale8_video wrap_shift Red]
       progress_bar[OF ok hm5, of hsv_plain nscale8_video wrap_shift Red]
       ok h50
  show ?thesis unfolding n by auto
qed

text \<open>
  C3 as stated fails on a strip of 40 pixels at 100 percent: \<open>lit\<close> is 40, the bitmap
  has 32 bits, and where the shift count is taken modulo 32 the bitmap is 255 and the
  tick lights pixels 0..7 only. (By \<open>progress_never_beyond_32\<close> no shift semantics
  lights a pixel from 32 on.)
\<close>

theorem progress_40_counterexample:
  "trunc100 (40 * 100) = 40
   \<and> bitmap (setProgress wrap_shift Red 100 (LEDControl_init 40 (replicate 40 Black) 0)) = 255
   \<and> map_option leds (update hsv_plain nscale8_video
        (setProgress wrap_shift Red 100 (LEDControl_init 40 (replicate 40 Black) 0)))
     = Some (replicate 8 Red @ replicate 32 Black)"
proof -
  let ?S = "LEDControl_init 40 (replicate 40 Black) 0"
  have ok: "strip_ok ?S" by (simp add: strip_ok_def LEDControl_init_def)
  have n: "ledCount ?S = 40" "length (leds ?S) = 40" by (simp_all add: LEDControl_init_def)
  have m: "mask 8 = (255 :: 32 word)" by (simp add: mask_eq_exp_minus_1)
  have h: "32 \<le> ledCount ?S" "(100::int) \<le> 100" by (simp_all add: n)
  have a: "bitmap (setProgress wrap_shift Red 100 ?S) = 255"
    by (simp add: progress_wrap(1)[OF ok h] n m)
  have b: "map_option leds (update hsv_plain nscale8_video (setProgress wrap_shift Red 100 ?S))
           = Some (replicate 8 Red @ replicate 32 Black)"
    by (simp add: progress_wrap(2)[OF ok h] n)
  show ?thesis using a b by (simp add: trunc100_def)
qed

text \<open>
  C10 (as amended). Where the shift count is taken modulo 32 (\<open>wrap_shift\<close>), full
  progress (percent 100 or more) on a strip of \<open>32 \<le> N \<le> 327\<close> pixels computes
  \<open>lit = N\<close> and stores the bitmap with the low \<open>N mod 32\<close> bits set, so the next tick
  lights pixels \<open>0..(N mod 32)-1\<close> only; for \<open>N = 32\<close> the bitmap is 0 and the tick
  leaves all 32 pixels black. (Up to 327 pixels the product \<open>100 * N\<close> fits an
  \<^verbatim>\<open>int\<close> of 16 bits.)
\<close>

theorem full_progress_wraps:
  assumes "strip_ok s" "32 \<le> ledCount s" "ledCount s \<le> 327" "100 \<le> p"
  shows "\<exists>s'. update hsv dim (setProgress wrap_shift c p s) = Some s'
     \<and> trunc100 (ledCount s * 100) = ledCount s
     \<and> bitmap (setProgress wrap_shift c p s) = mask (nat (ledCount s mod 32))
     \<and> leds s' = replicate (nat (ledCount s mod 32)) c
                @ replicate (length (leds s) - nat (ledCount s mod 32)) Black
     \<and> (ledCount s = 32 \<longrightarrow>
          bitmap (setProgress wrap_shift c p s) = 0 \<and> leds s' = replicate 32 Black)"
proof -
  note pw = progress_wrap[OF assms(1,2,4), where c = c]
  have len: "ledCount s = 32 \<Longrightarrow> length (leds s) = 32"
    using assms(1) by (simp add: strip_ok_def)
  have "trunc100 (ledCount s * 100) = ledCount s"
    using assms(2) by (simp add: trunc100_def)
  then show ?thesis
    unfolding pw(1) pw(2)[where hsv = hsv and dim = dim, unfolded pw(1)] using len by auto
qed

theorem full_progress_wraps_witness:
  "strip_ok (LEDControl_init 32 (replicate 32 Red) 0)
   \<and> 32 \<le> ledCount (LEDControl_init 32 (replicate 32 Red) 0)
   \<and> ledCount (LEDControl_init 32 (replicate 32 Red) 0) \<le> 327
   \<and> (100::int) \<le> 100
   \<and> (\<exists>s'. update hsv_plain nscale8_video
               (setProgress wrap_shift Red 100 (LEDControl_init 32 (replicate 32 Red) 0)) = Some s'
          \<and> bitmap (setProgress wrap_shift Red 100 (LEDControl_init 32 (replicate 32 Red) 0)) = 0
          \<and> leds s' = replicate 32 Black)"
proof -
  let ?S = "LEDControl_init 32 (replicate 32 Red) 0"
  have ok: "strip_ok ?S" by (simp add: strip_ok_def LEDControl_init_def)
  have n: "32 \<le> ledCount ?S" "ledCount ?S \<le> 327" "ledCount ?S = 32"
    by (simp_all add: LEDControl_init_def)
  have p: "(100::int) \<le> 100" by simp
  from full_progress_wraps[OF ok n(1,2) p, of hsv_plain nscale8_video Red] ok n
  show ?thesis by auto
qed

text \<open>
  C10 as stated fails for wider strips: on 33 pixels, with the same shift, full progress
  lights pixel 0 and is not an empty bar.
\<close>

theorem full_progress_33_counterexample:
  "map_option leds (update hsv_plain nscale8_video
        (setProgress wrap_shift Red 100 (LEDControl_init 33 (replicate 33 Black) 0)))
     = Some ([Red] @ replicate 32 Black)"
proof -
  let ?S = "LEDControl_init 33 (replicate 33 Black) 0"
  have ok: "strip_ok ?S" by (simp add: strip_ok_def LEDControl_init_def)
  have n: "ledCount ?S = 33" "length (leds ?S) = 33" by (simp_all add: LEDControl_init_def)
  have h: "32 \<le> ledCount ?S" "(100::int) \<le> 100" by (simp_all add: n)
  show ?thesis
    by (simp add: progress_wrap(2)[OF ok h] n)
qed

section \<open>Rainbow and running modes\<close>




lemma run_fwd_step:
  assumes "strip_ok t" "mode t = MODE_RUNFWD" "\<not> newMode t"
  shows "update hsv dim t = Some (t\<lparr>leds := last (leds t) # butlast (leds t)\<rparr>)"
  using assms shiftFwd_wf[OF assms(1)] by (simp add: update_def update_RUNFWD_def)







lemma shift_one_lit:
  assumes "p < N"
  shows "last ((replicate N d)[p := c]) # butlast ((replicate N d)[p := c])
         = (replicate N d)[Suc p mod N := c]"
proof (rule nth_equalityI)
  show "length (last ((replicate N d)[p := c]) # butlast ((replicate N d)[p := c]))
        = length ((replicate N d)[Suc p mod N := c])"
    using assms by simp
next
  fix j
  assume "j < length (last ((replicate N d)[p := c]) # butlast ((replicate N d)[p := c]))"
  then have j: "j < N" using assms by simp
  let ?xs = "(replicate N d)[p := c]"
  have nth: "?xs ! q = (if q = p then c else d)" if "q < N" for q using that by simp
  have ne: "?xs \<noteq> []" using assms by auto
  show "(last ?xs # butlast ?xs) ! j = (replicate N d)[Suc p mod N := c] ! j"
  proof (cases "Suc p = N")
    case True
    then have m: "Suc p mod N = 0" by simp
    show ?thesis
    proof (cases j)
      case 0
      have "last ?xs = ?xs ! (N - 1)" using ne by (simp add: last_conv_nth)
      also have "\<dots> = c" using True nth[of "N - 1"] by auto
      finally show ?thesis using 0 m j by simp
    next
      case (Suc i)
      then have "(last ?xs # butlast ?xs) ! j = ?xs ! i" using j by (simp add: nth_butlast)
      also have "\<dots> = d" using Suc j True nth[of i] by auto
      finally show ?thesis using Suc m j by simp
    qed
  next
    case False
    then have lt: "Suc p < N" using assms by simp
    then have m: "Suc p mod N = Suc p" by simp
    show ?thesis
    proof (cases j)
      case 0
      have "last ?xs = ?xs ! (N - 1)" using ne by (simp add: last_conv_nth)
      also have "\<dots> = d" using lt nth[of "N - 1"] by auto
      finally show ?thesis using 0 m j by simp
    next
      case (Suc i)
      then have "(last ?xs # butlast ?xs) ! j = ?xs ! i" using j by (simp add: nth_butlast)
      also have "\<dots> = (if i = p then c else d)" using Suc j nth[of i] by auto
      finally show ?thesis using Suc m j by auto
    qed
  qed
qed

lemma filter_eq_upt: "filter (\<lambda>i. i = p) [0..<N] = (if p < N then [p] else [])"
  by (induction N) auto

lemma lit_pixels_one:
  assumes "p < N" "c \<noteq> d" "leds s = (replicate N d)[p := c]"
  shows "lit_pixels c s = [p]"
proof -
  have "filter (\<lambda>i. (replicate N d)[p := c] ! i = c) [0..<N] = filter (\<lambda>i. i = p) [0..<N]"
    using assms(1,2) by (intro filter_cong) (auto simp: nth_list_update)
  then show ?thesis using assms(1) by (simp add: lit_pixels_def assms(3) filter_eq_upt)
qed

lemma run_fwd_first:
  assumes "strip_ok s"
  shows "update hsv dim (setRunFwd c s) =
     Some (s\<lparr>newMode := False, mode := MODE_RUNFWD, color := c,
            leds := (replicate (length (leds s)) Black)[0 := c]\<rparr>)"
proof -
  have N: "0 < length (leds s)" using assms by (auto simp: strip_ok_def)
  have f: "fill_solid (leds s) (ledCount s) Black = Some (replicate (length (leds s)) Black)"
    by (rule fill_solid_wf[OF assms])
  show ?thesis
    using N by (simp add: update_def update_RUNFWD_def setRunFwd_def f put_def)
qed

lemma run_fwd_closed:
  assumes "strip_ok s"
  shows "ticks hsv dim (Suc k) (setRunFwd c s) =
     Some (s\<lparr>newMode := False, mode := MODE_RUNFWD, color := c,
            leds := (replicate (length (leds s)) Black)[k mod length (leds s) := c]\<rparr>)"
proof (induction k)
  case 0
  show ?case by (simp add: run_fwd_first[OF assms])
next
  case (Suc k)
  let ?N = "length (leds s)"
  let ?t = "s\<lparr>newMode := False, mode := MODE_RUNFWD, color := c,
            leds := (replicate ?N Black)[k mod ?N := c]\<rparr>"
  have N: "0 < ?N" using assms by (auto simp: strip_ok_def)
  have okt: "strip_ok ?t" using assms by (simp add: strip_ok_def)
  have "ticks hsv dim (Suc (Suc k)) (setRunFwd c s)
        = ticks hsv dim (Suc k) (setRunFwd c s) \<bind> update hsv dim"
    by (rule ticks_Suc_right)
  also have "\<dots> = update hsv dim ?t"
    by (simp only: Suc.IH Option.bind.simps)
  also have "\<dots> = Some (?t\<lparr>leds := last (leds ?t) # butlast (leds ?t)\<rparr>)"
    by (rule run_fwd_step[OF okt]) simp_all
  also have "last (leds ?t) # butlast (leds ?t) = (replicate ?N Black)[Suc (k mod ?N) mod ?N := c]"
    using shift_one_lit[of "k mod ?N" ?N Black c] N by simp
  also have "Suc (k mod ?N) mod ?N = Suc k mod ?N" by (rule mod_Suc_eq)
  finally show ?case by simp
qed

text \<open>
  C6 (as amended). For every \<open>N > 0\<close> and every colour, after \<^verbatim>\<open>setRunFwd\<close> the first tick
  (\<open>k = 0\<close>) returns and leaves the buffer black except for pixel 0, which holds the
  colour; after \<open>k\<close> further ticks the buffer is black except for pixel \<open>k mod N\<close>, which
  holds the colour. For every colour other than black this is the one pixel that equals it.
\<close>

theorem run_forward_position:
  assumes "strip_ok s"
  shows "\<exists>s'. ticks hsv dim (Suc k) (setRunFwd c s) = Some s'
     \<and> leds s' = (replicate (length (leds s)) Black)[k mod length (leds s) := c]
     \<and> (c \<noteq> Black \<longrightarrow> lit_pixels c s' = [k mod length (leds s)])"
proof -
  let ?N = "length (leds s)"
  let ?s' = "s\<lparr>newMode := False, mode := MODE_RUNFWD, color := c,
            leds := (replicate ?N Black)[k mod ?N := c]\<rparr>"
  have N: "0 < ?N" using assms by (auto simp: strip_ok_def)
  have "lit_pixels c ?s' = [k mod ?N]" if "c \<noteq> Black"
    by (rule lit_pixels_one[of _ ?N]) (use N that in simp_all)
  then show ?thesis
    unfolding run_fwd_closed[OF assms] by simp
qed

theorem run_forward_position_witness:
  "strip_ok (LEDControl_init 3 [Red, Red, Red] 0)
   \<and> (\<exists>s'. ticks hsv_plain nscale8_video 5 (setRunFwd Red (LEDControl_init 3 [Red, Red, Red] 0))
             = Some s'
          \<and> leds s' = [Black, Red, Black] \<and> Red \<noteq> Black \<and> lit_pixels Red s' = [1])"
proof -
  have ok: "strip_ok (LEDControl_init 3 [Red, Red, Red] 0)"
    by (simp add: strip_ok_def LEDControl_init_def)
  have n: "length (leds (LEDControl_init 3 [Red, Red, Red] 0)) = 3"
    by (simp add: LEDControl_init_def)
  have ne: "Red \<noteq> Black" by (simp add: Red_def Black_def)
  have m: "(4::nat) mod 3 = 1" by simp
  have r: "(replicate 3 Black)[1 := Red] = [Black, Red, Black]"
    by (simp add: eval_nat_numeral)
  have s5: "Suc 4 = 5" by simp
  note th = run_forward_position[OF ok, of hsv_plain nscale8_video 4 Red, unfolded n m r s5]
  from th obtain s' where
    "ticks hsv_plain nscale8_video 5 (setRunFwd Red (LEDControl_init 3 [Red, Red, Red] 0)) = Some s'"
    "leds s' = [Black, Red, Black]" "Red \<noteq> Black \<longrightarrow> lit_pixels Red s' = [1]"
    by blast
  with ok ne show ?thesis by blast
qed

text \<open>
  C6 as stated fails for the colour black on two pixels: after the first tick both pixels
  equal the colour, not exactly one.
\<close>

theorem run_forward_black_counterexample:
  "map_option (lit_pixels Black)
     (ticks hsv_plain nscale8_video 1 (setRunFwd Black (LEDControl_init 2 [Red, Red] 0)))
   = Some [0, 1]"
proof -
  have ok: "strip_ok (LEDControl_init 2 [Red, Red] 0)"
    by (simp add: strip_ok_def LEDControl_init_def)
  have n: "length (leds (LEDControl_init 2 [Red, Red] 0)) = 2"
    by (simp add: LEDControl_init_def)
  have r: "(replicate 2 Black)[0 mod 2 := Black] = [Black, Black]"
    by (simp add: eval_nat_numeral)
  have s1: "Suc 0 = 1" by simp
  note cl = run_fwd_closed[OF ok, of hsv_plain nscale8_video 0 Black, unfolded n r s1]
  have u: "[0..<2] = [0, Suc 0]" by (simp add: eval_nat_numeral upt_rec)
  show ?thesis
    unfolding cl by (simp add: lit_pixels_def u)
qed

section \<open>Cylon\<close>

lemma cylon_state_ok:
  "strip_ok s \<Longrightarrow> ledCount s = 4 \<Longrightarrow> strip_ok (cylon_state c s ph)"
  by (simp add: strip_ok_def cylon_state_def)

lemma cylon_first:
  assumes "strip_ok s" "ledCount s = 4"
  shows "update hsv dim (setCylon c s) = Some (cylon_state c s 0)"
proof -
  have N: "length (leds s) = 4" using assms by (simp add: strip_ok_def)
  have f: "fill_solid (leds s) (ledCount s) Black = Some (replicate (length (leds s)) Black)"
    by (rule fill_solid_wf[OF assms(1)])
  show ?thesis
    by (simp add: update_def update_CYLON_def setCylon_def f put_def N cylon_state_def
        cylon_seq_def)
qed

lemma four: "replicate 4 x = [x, x, x, x]"
  by (simp add: eval_nat_numeral)

lemma cylon_step:
  assumes "strip_ok s" "ledCount s = 4" "c \<noteq> Black" "ph < 8"
  shows "update hsv dim (cylon_state c s ph) = Some (cylon_state c s (Suc ph mod 8))"
proof -
  have ne: "Black \<noteq> c" using assms(3) by simp
  have sf: "shiftFwd (cylon_state c s q)
            = Some (cylon_state c s q\<lparr>leds := last (leds (cylon_state c s q))
                                          # butlast (leds (cylon_state c s q))\<rparr>)" for q
    by (rule shiftFwd_wf[OF cylon_state_ok[OF assms(1,2)]])
  have sr: "shiftRev (cylon_state c s q)
            = Some (cylon_state c s q\<lparr>leds := tl (leds (cylon_state c s q))
                                          @ [hd (leds (cylon_state c s q))]\<rparr>)" for q
    by (rule shiftRev_wf[OF cylon_state_ok[OF assms(1,2)]])
  have upd: "update hsv dim (cylon_state c s q) = update_CYLON (cylon_state c s q)" for q
    by (simp add: update_def cylon_state_def)
  from assms(4) consider "ph = 0" | "ph = 1" | "ph = 2" | "ph = 3" | "ph = 4" | "ph = 5" | "ph = 6"
    | "ph = 7" by linarith
  then show ?thesis
  proof cases
    case 1
    show ?thesis unfolding upd update_CYLON_def sf
      using ne assms(2,3) by (simp add: 1 cylon_state_def cylon_seq_def four get_def)
  next
    case 2
    show ?thesis unfolding upd update_CYLON_def sf
      using ne assms(2,3) by (simp add: 2 cylon_state_def cylon_seq_def four get_def)
  next
    case 3
    show ?thesis unfolding upd update_CYLON_def sf
      using ne assms(2,3) by (simp add: 3 cylon_state_def cylon_seq_def four get_def)
  next
    case 4
    show ?thesis unfolding upd update_CYLON_def sf
      using ne assms(2,3) by (simp add: 4 cylon_state_def cylon_seq_def four get_def)
  next
    case 5
    show ?thesis unfolding upd update_CYLON_def sr
      using ne assms(2,3) by (simp add: 5 cylon_state_def cylon_seq_def four get_def)
  next
    case 6
    show ?thesis unfolding upd update_CYLON_def sr
      using ne assms(2,3) by (simp add: 6 cylon_state_def cylon_seq_def four get_def)
  next
    case 7
    show ?thesis unfolding upd update_CYLON_def sr
      using ne assms(2,3) by (simp add: 7 cylon_state_def cylon_seq_def four get_def)
  next
    case 8
    show ?thesis unfolding upd update_CYLON_def sr
      using ne assms(2,3) by (simp add: 8 cylon_state_def cylon_seq_def four get_def)
  qed
qed

lemma cylon_closed:
  assumes "strip_ok s" "ledCount s = 4" "c \<noteq> Black"
  shows "ticks hsv dim (Suc t) (setCylon c s) = Some (cylon_state c s (t mod 8))"
proof (induction t)
  case 0
  show ?case by (simp add: cylon_first[OF assms(1,2)])
next
  case (Suc t)
  have "ticks hsv dim (Suc (Suc t)) (setCylon c s)
        = ticks hsv dim (Suc t) (setCylon c s) \<bind> update hsv dim"
    by (rule ticks_Suc_right)
  also have "\<dots> = update hsv dim (cylon_state c s (t mod 8))"
    by (simp only: Suc.IH Option.bind.simps)
  also have "\<dots> = Some (cylon_state c s (Suc (t mod 8) mod 8))"
    by (rule cylon_step[OF assms]) simp
  also have "Suc (t mod 8) mod 8 = Suc t mod 8" by (rule mod_Suc_eq)
  finally show ?case .
qed

lemma cylon_seq_bound: "ph < 8 \<Longrightarrow> cylon_seq ! ph < 4"
proof -
  assume "ph < 8"
  then consider "ph = 0" | "ph = 1" | "ph = 2" | "ph = 3" | "ph = 4" | "ph = 5" | "ph = 6"
    | "ph = 7" by linarith
  then show ?thesis by cases (simp_all add: cylon_seq_def)
qed

lemma cylon_black_step:
  assumes "strip_ok s" "ledCount s = 4"
  shows "update hsv dim (s\<lparr>newMode := False, mode := MODE_CYLON, color := Black,
                            leds := replicate 4 Black, curdir := d\<rparr>)
         = Some (s\<lparr>newMode := False, mode := MODE_CYLON, color := Black,
                   leds := replicate 4 Black,
                   curdir := (if d = MODE_RUNFWD then MODE_RUNREV else MODE_RUNFWD)\<rparr>)"
  using assms(2)
  by (simp add: update_def update_CYLON_def get_def four)

lemma cylon_black_closed:
  assumes "strip_ok s" "ledCount s = 4"
  shows "ticks hsv dim (Suc t) (setCylon Black s)
         = Some (s\<lparr>newMode := False, mode := MODE_CYLON, color := Black,
                   leds := replicate 4 Black,
                   curdir := (if even t then MODE_RUNFWD else MODE_RUNREV)\<rparr>)"
proof (induction t)
  case 0
  show ?case
    by (simp add: cylon_first[OF assms] cylon_state_def cylon_seq_def four)
next
  case (Suc t)
  have "ticks hsv dim (Suc (Suc t)) (setCylon Black s)
        = ticks hsv dim (Suc t) (setCylon Black s) \<bind> update hsv dim"
    by (rule ticks_Suc_right)
  also have "\<dots> = update hsv dim (s\<lparr>newMode := False, mode := MODE_CYLON, color := Black,
                   leds := replicate 4 Black,
                   curdir := (if even t then MODE_RUNFWD else MODE_RUNREV)\<rparr>)"
    by (simp only: Suc.IH Option.bind.simps)
  also have "\<dots> = Some (s\<lparr>newMode := False, mode := MODE_CYLON, color := Black,
                   leds := replicate 4 Black,
                   curdir := (if even (Suc t) then MODE_RUNFWD else MODE_RUNREV)\<rparr>)"
    unfolding cylon_black_step[OF assms] by simp
  finally show ?case .
qed

text \<open>
  C4. On a strip of four pixels, after \<^verbatim>\<open>setCylon(C)\<close> every tick returns, and after each
  tick the pixel whose index is next in 0,1,2,3,3,2,1,0,0,1,2,... (\<open>cylon_seq\<close> repeated)
  holds \<open>C\<close> while every other pixel is black: each end is held for one extra tick and
  the object repeats with period 8 = 2N. For every \<open>C\<close> other than black that pixel is
  the only one holding \<open>C\<close>.
\<close>

theorem cylon_four_pixels:
  assumes "strip_ok s" "ledCount s = 4"
  shows "\<exists>s'. ticks hsv dim (Suc t) (setCylon c s) = Some s'
     \<and> leds s' = (replicate 4 Black)[cylon_seq ! (t mod 8) := c]
     \<and> (c \<noteq> Black \<longrightarrow> lit_pixels c s' = [cylon_seq ! (t mod 8)])
     \<and> ticks hsv dim (Suc (t + 8)) (setCylon c s) = Some s'"
proof (cases "c = Black")
  case True
  have "(replicate 4 Black)[cylon_seq ! (t mod 8) := Black] = replicate 4 Black"
    by (simp add: list_update_same_conv cylon_seq_bound)
  then show ?thesis
    unfolding True cylon_black_closed[OF assms] by simp
next
  case False
  have "lit_pixels c (cylon_state c s (t mod 8)) = [cylon_seq ! (t mod 8)]"
    by (rule lit_pixels_one[of _ 4 _ Black])
       (use False in \<open>simp_all add: cylon_seq_bound cylon_state_def\<close>)
  moreover have "(t + 8) mod 8 = t mod 8" by simp
  ultimately show ?thesis
    unfolding cylon_closed[OF assms False] by (simp add: cylon_state_def)
qed

theorem cylon_four_pixels_witness:
  "strip_ok (LEDControl_init 4 [Red, Red, Red, Red] 0)
   \<and> ledCount (LEDControl_init 4 [Red, Red, Red, Red] 0) = 4
   \<and> Red \<noteq> Black
   \<and> (\<exists>s4 s5 s8 s9 s10.
         ticks hsv_plain nscale8_video 4 (setCylon Red (LEDControl_init 4 [Red, Red, Red, Red] 0)) = Some s4
       \<and> ticks hsv_plain nscale8_video 5 (setCylon Red (LEDControl_init 4 [Red, Red, Red, Red] 0)) = Some s5
       \<and> ticks hsv_plain nscale8_video 8 (setCylon Red (LEDControl_init 4 [Red, Red, Red, Red] 0)) = Some s8
       \<and> ticks hsv_plain nscale8_video 9 (setCylon Red (LEDControl_init 4 [Red, Red, Red, Red] 0)) = Some s9
       \<and> ticks hsv_plain nscale8_video 10 (setCylon Red (LEDControl_init 4 [Red, Red, Red, Red] 0)) = Some s10
       \<and> lit_pixels Red s4 = [3] \<and> lit_pixels Red s5 = [3] \<and> lit_pixels Red s8 = [0]
       \<and> lit_pixels Red s9 = [0] \<and> lit_pixels Red s10 = [1])"
proof -
  have ok: "strip_ok (LEDControl_init 4 [Red, Red, Red, Red] 0)"
    by (simp add: strip_ok_def LEDControl_init_def)
  have n: "ledCount (LEDControl_init 4 [Red, Red, Red, Red] 0) = 4"
    by (simp add: LEDControl_init_def)
  have ne: "Red \<noteq> Black" by (simp add: Red_def Black_def)
  have sq: "cylon_seq ! (3 mod 8) = 3" "cylon_seq ! (4 mod 8) = 3" "cylon_seq ! (7 mod 8) = 0"
    "cylon_seq ! (8 mod 8) = 0" "cylon_seq ! (9 mod 8) = 1"
    by (simp_all add: cylon_seq_def)
  have nm: "Suc 3 = 4" "Suc 4 = 5" "Suc 7 = 8" "Suc 8 = 9" "Suc 9 = 10" by simp_all
  note th = cylon_four_pixels[OF ok n, of hsv_plain nscale8_video _ Red]
  from th[of 3, unfolded sq nm] th[of 4, unfolded sq nm] th[of 7, unfolded sq nm]
    th[of 8, unfolded sq nm] th[of 9, unfolded sq nm] ok n ne
  show ?thesis by blast
qed

section \<open>Marquee\<close>

lemma bit_shl1: "bit (push_bit 1 w :: 32 word) i \<longleftrightarrow> 1 \<le> i \<and> i < 32 \<and> bit w (i - 1)"
  by (simp only: bit_push_bit_iff) (auto simp: possible_bit_word)

lemma bit_rot_left:
  assumes "1 \<le> m" "m \<le> 32"
  shows "bit (rot_left m w) i \<longleftrightarrow> i < m \<and> (if i = 0 then bit w (m - 1) else bit w (i - 1))"
proof -
  have "bit (rot_left m w) i \<longleftrightarrow>
          (i < m \<and> bit (push_bit 1 w) i) \<or> (m - 1 + i < m \<and> bit w (m - 1 + i))"
    by (simp only: rot_left_def bit_or_iff bit_take_bit_iff bit_drop_bit_eq o_apply)
  also have "\<dots> \<longleftrightarrow> i < m \<and> (if i = 0 then bit w (m - 1) else bit w (i - 1))"
    unfolding bit_shl1 using assms by (cases "i = 0") (auto dest: bit_imp_le_length)
  finally show ?thesis .
qed

lemma bit_marquee:
  "bit (push_bit 1 w OR drop_bit (m - 1) w :: 32 word) i
   \<longleftrightarrow> (1 \<le> i \<and> i < 32 \<and> bit w (i - 1)) \<or> bit w (m - 1 + i)"
  by (simp only: bit_or_iff bit_shl1 bit_drop_bit_eq o_apply)

lemma marquee_rot:
  fixes w :: "32 word"
  assumes "1 \<le> m" "m \<le> 32" and hi: "\<And>j. bit w (j + m) \<Longrightarrow> bit w j"
  shows "take_bit m (push_bit 1 w OR drop_bit (m - 1) w) = rot_left m (take_bit m w)"
    and "\<And>j. bit (push_bit 1 w OR drop_bit (m - 1) w) (j + m)
              \<Longrightarrow> bit (push_bit 1 w OR drop_bit (m - 1) w) j"
proof -
  let ?w' = "push_bit 1 w OR drop_bit (m - 1) w"
  show "take_bit m ?w' = rot_left m (take_bit m w)"
  proof (rule bit_eqI)
    fix i
    have lhs: "bit (take_bit m ?w') i \<longleftrightarrow>
                 i < m \<and> ((1 \<le> i \<and> i < 32 \<and> bit w (i - 1)) \<or> bit w (m - 1 + i))"
      by (simp only: bit_take_bit_iff bit_marquee)
    have rhs: "bit (rot_left m (take_bit m w)) i \<longleftrightarrow>
                 i < m \<and> (if i = 0 then m - 1 < m \<and> bit w (m - 1)
                           else i - 1 < m \<and> bit w (i - 1))"
      by (simp only: bit_rot_left[OF assms(1,2)] bit_take_bit_iff)
    have up: "bit w (i - 1)" if "bit w (m - 1 + i)" "i \<noteq> 0"
    proof -
      have "m - 1 + i = (i - 1) + m" using that(2) assms(1) by simp
      then show ?thesis using hi[of "i - 1"] that(1) by simp
    qed
    show "bit (take_bit m ?w') i \<longleftrightarrow> bit (rot_left m (take_bit m w)) i"
      unfolding lhs rhs using assms(1,2) up by (cases "i = 0") auto
  qed
next
  fix j
  let ?w' = "push_bit 1 w OR drop_bit (m - 1) w"
  assume a: "bit ?w' (j + m)"
  show "bit ?w' j"
  proof (cases "j = 0")
    case True
    from a have "bit w (m - 1) \<or> bit w (m - 1 + m)"
      unfolding bit_marquee using True assms(1) by auto
    then have "bit w (m - 1)" using hi[of "m - 1"] by auto
    then show ?thesis unfolding bit_marquee using True by simp
  next
    case False
    have e1: "j + m - 1 = (j - 1) + m" using False by simp
    have e2: "m - 1 + (j + m) = ((j - 1) + m) + m" using False assms(1) by simp
    from a have "bit w ((j - 1) + m) \<or> bit w (((j - 1) + m) + m)"
      unfolding bit_marquee e2 using e1 by auto
    then have h: "bit w ((j - 1) + m)" using hi[of "(j - 1) + m"] by auto
    then have "bit w (j - 1)" by (rule hi)
    moreover have "j < 32" using bit_imp_le_length[OF h] assms(1) by simp
    ultimately show ?thesis unfolding bit_marquee using False by simp
  qed
qed

lemma marquee_first:
  assumes "strip_ok s"
  shows "update hsv dim (setMarquee c bm s) =
     Some (s\<lparr>newMode := False, mode := MODE_MARQUEE, color := c, bitmap := bm,
            leds := map (\<lambda>j. if bit bm j then c else Black) [0..<length (leds s)]\<rparr>)"
proof -
  let ?xs = "replicate (length (leds s)) Black"
  have len: "min (ledCount s) 32 \<le> int (length ?xs)"
    using assms by (simp add: strip_ok_def)
  have "map (\<lambda>j. if int j < min (ledCount s) 32 \<and> bit bm j then c else ?xs ! j)
          [0..<length ?xs]
        = map (\<lambda>j. if bit bm j then c else Black) [0..<length (leds s)]"
    using assms by (auto simp: strip_ok_def dest: bit_imp_le_length)
  then have "paint_set bm c (min (ledCount s) 32) ?xs
        = Some (map (\<lambda>j. if bit bm j then c else Black) [0..<length (leds s)])"
    using paint_set_closed[OF len] by simp
  then show ?thesis
    using fill_solid_wf[OF assms]
    by (simp add: update_def update_MARQUEE_def setMarquee_def)
qed

lemma marquee_later:
  assumes "strip_ok t" "mode t = MODE_MARQUEE" "\<not> newMode t"
    and m: "m = nat (min (ledCount t) 32)"
    and w': "w' = push_bit 1 (bitmap t) OR drop_bit (m - 1) (bitmap t)"
  shows "update hsv dim t =
     Some (t\<lparr>bitmap := w',
            leds := map (\<lambda>j. if j < m then (if bit w' j then color t else Black) else leds t ! j)
                      [0..<length (leds t)]\<rparr>)"
proof -
  have mm: "min (ledCount t) 32 = int m" and m1: "\<not> int m < 1"
    and len: "int m \<le> int (length (leds t))"
    using assms(1) unfolding m by (auto simp: strip_ok_def min_def)
  have pa: "paint_all w' (color t) (int m) (leds t)
        = Some (map (\<lambda>j. if j < m then (if bit w' j then color t else Black) else leds t ! j)
                  [0..<length (leds t)])"
    using paint_all_closed[OF len, of w' "color t"] by simp
  have "update_MARQUEE t =
     Some (t\<lparr>bitmap := w',
            leds := map (\<lambda>j. if j < m then (if bit w' j then color t else Black) else leds t ! j)
                      [0..<length (leds t)]\<rparr>)"
    by (simp only: update_MARQUEE_def assms(3) if_False Let_def mm m1 nat_int_pred
        w'[symmetric] pa Option.bind.simps)
  then show ?thesis using assms(2) by (simp add: update_def)
qed

lemma take_bit_no_high:
  fixes w :: "32 word"
  shows "bit (take_bit m w) j \<Longrightarrow> j < m"
  by (simp add: bit_take_bit_iff)

lemma marquee_closed:
  assumes ok: "strip_ok s" and m: "m = nat (min (ledCount s) 32)" and low: "take_bit m bm = bm"
  shows "\<exists>w. ticks hsv dim k
               (s\<lparr>newMode := False, mode := MODE_MARQUEE, color := c, bitmap := bm,
                  leds := map (\<lambda>j. if bit bm j then c else Black) [0..<length (leds s)]\<rparr>)
             = Some (s\<lparr>newMode := False, mode := MODE_MARQUEE, color := c, bitmap := w,
                  leds := map (\<lambda>j. if bit ((rot_left m ^^ k) bm) j then c else Black)
                            [0..<length (leds s)]\<rparr>)
           \<and> take_bit m w = (rot_left m ^^ k) bm
           \<and> (\<forall>j. bit w (j + m) \<longrightarrow> bit w j)"
proof (induction k)
  case 0
  have "\<not> bit bm (j + m)" for j
    using take_bit_no_high[of m bm "j + m"] low by auto
  then show ?case using low by auto
next
  case (Suc k)
  let ?s1 = "s\<lparr>newMode := False, mode := MODE_MARQUEE, color := c, bitmap := bm,
                  leds := map (\<lambda>j. if bit bm j then c else Black) [0..<length (leds s)]\<rparr>"
  let ?R = "(rot_left m ^^ k) bm"
  have m1: "1 \<le> m" "m \<le> 32" using ok unfolding m by (auto simp: strip_ok_def min_def)
  from Suc.IH obtain w where
    tk: "ticks hsv dim k ?s1
         = Some (s\<lparr>newMode := False, mode := MODE_MARQUEE, color := c, bitmap := w,
                  leds := map (\<lambda>j. if bit ?R j then c else Black) [0..<length (leds s)]\<rparr>)"
    and tw: "take_bit m w = ?R"
    and hi: "\<And>j. bit w (j + m) \<Longrightarrow> bit w j"
    by blast
  let ?t = "s\<lparr>newMode := False, mode := MODE_MARQUEE, color := c, bitmap := w,
                  leds := map (\<lambda>j. if bit ?R j then c else Black) [0..<length (leds s)]\<rparr>"
  define w' where "w' = push_bit 1 w OR drop_bit (m - 1) w"
  have okt: "strip_ok ?t" using ok by (simp add: strip_ok_def)
  have mt: "m = nat (min (ledCount ?t) 32)" using m by simp
  have bt: "bitmap ?t = w" by simp
  have wt: "w' = push_bit 1 (bitmap ?t) OR drop_bit (m - 1) (bitmap ?t)"
    by (simp only: w'_def bt)
  have "take_bit m w' = rot_left m (take_bit m w)"
    unfolding w'_def by (rule marquee_rot(1)[OF m1 hi])
  also have "\<dots> = rot_left m ?R" by (simp only: tw)
  also have "\<dots> = (rot_left m ^^ Suc k) bm" by simp
  finally have R': "take_bit m w' = (rot_left m ^^ Suc k) bm" .
  have hi': "\<forall>j. bit w' (j + m) \<longrightarrow> bit w' j"
    unfolding w'_def using marquee_rot(2)[OF m1 hi] by blast
  have px: "(if j < m then (if bit w' j then c else Black)
             else (if bit ?R j then c else Black))
            = (if bit ((rot_left m ^^ Suc k) bm) j then c else Black)" for j
  proof (cases "j < m")
    case True
    have "bit ((rot_left m ^^ Suc k) bm) j \<longleftrightarrow> bit w' j"
      unfolding R'[symmetric] using True by (simp add: bit_take_bit_iff)
    then show ?thesis using True by simp
  next
    case False
    have "\<not> bit ?R j" using take_bit_no_high[of m w j] tw False by auto
    moreover have "\<not> bit ((rot_left m ^^ Suc k) bm) j"
      using take_bit_no_high[of m w' j] R' False by auto
    ultimately show ?thesis using False by simp
  qed
  have "update hsv dim ?t =
     Some (?t\<lparr>bitmap := w',
            leds := map (\<lambda>j. if j < m then (if bit w' j then color ?t else Black)
                              else leds ?t ! j) [0..<length (leds ?t)]\<rparr>)"
    by (rule marquee_later[OF okt _ _ mt wt]) simp_all
  also have "map (\<lambda>j. if j < m then (if bit w' j then color ?t else Black)
                              else leds ?t ! j) [0..<length (leds ?t)]
       = map (\<lambda>j. if bit ((rot_left m ^^ Suc k) bm) j then c else Black) [0..<length (leds s)]"
  proof -
    have lt: "length (leds ?t) = length (leds s)" by simp
    have ct: "color ?t = c" by simp
    show ?thesis
      unfolding lt ct
    proof (rule map_cong[OF refl])
      fix j assume "j \<in> set [0..<length (leds s)]"
      then have "j < length (leds s)" by simp
      then have nt: "leds ?t ! j = (if bit ?R j then c else Black)" by simp
      show "(if j < m then (if bit w' j then c else Black) else leds ?t ! j)
            = (if bit ((rot_left m ^^ Suc k) bm) j then c else Black)"
        unfolding nt by (rule px)
    qed
  qed
  finally have up: "update hsv dim ?t =
     Some (s\<lparr>newMode := False, mode := MODE_MARQUEE, color := c, bitmap := w',
            leds := map (\<lambda>j. if bit ((rot_left m ^^ Suc k) bm) j then c else Black)
                      [0..<length (leds s)]\<rparr>)"
    by simp
  have "ticks hsv dim (Suc k) ?s1 = ticks hsv dim k ?s1 \<bind> update hsv dim"
    by (rule ticks_Suc_right)
  also have "\<dots> = update hsv dim ?t"
    by (simp only: tk Option.bind.simps)
  also note up
  finally have fin: "ticks hsv dim (Suc k) ?s1 =
     Some (s\<lparr>newMode := False, mode := MODE_MARQUEE, color := c, bitmap := w',
            leds := map (\<lambda>j. if bit ((rot_left m ^^ Suc k) bm) j then c else Black)
                      [0..<length (leds s)]\<rparr>)" .
  show ?case
    by (rule exI[of _ w'], intro conjI) (rule fin, rule R', rule hi')
qed

text \<open>
  The rotation is exact when the bitmap fits the strip. In Marquee mode on a strip of
  \<open>N > 0\<close> pixels, with \<open>m = min N 32\<close>, for every colour and every bitmap with no bit set
  from position \<open>m\<close> on: the first tick returns and shows the bitmap (a set bit gets the
  colour, a clear bit black); every later tick returns, rotates the low \<open>m\<close> bits
  circularly left by one position (\<open>rot_left m\<close>: the bit leaving position \<open>m - 1\<close>
  re-enters at bit 0) and renders the pixels from the result, so that after \<open>k\<close> later
  ticks the buffer shows the \<open>k\<close>-fold rotation of the bitmap.
\<close>

theorem marquee_rotates:
  assumes "strip_ok s" and "take_bit (nat (min (ledCount s) 32)) bm = bm"
  shows "\<exists>s1. update hsv dim (setMarquee c bm s) = Some s1
     \<and> leds s1 = map (\<lambda>i. if bit bm i then c else Black) [0..<length (leds s)]
     \<and> (\<forall>k. \<exists>sk. ticks hsv dim k s1 = Some sk
            \<and> take_bit (nat (min (ledCount s) 32)) (bitmap sk)
                = (rot_left (nat (min (ledCount s) 32)) ^^ k) bm
            \<and> leds sk = map (\<lambda>i. if bit ((rot_left (nat (min (ledCount s) 32)) ^^ k) bm) i
                                    then c else Black) [0..<length (leds s)])"
proof -
  let ?s1 = "s\<lparr>newMode := False, mode := MODE_MARQUEE, color := c, bitmap := bm,
                  leds := map (\<lambda>j. if bit bm j then c else Black) [0..<length (leds s)]\<rparr>"
  have "\<exists>sk. ticks hsv dim k ?s1 = Some sk
            \<and> take_bit (nat (min (ledCount s) 32)) (bitmap sk)
                = (rot_left (nat (min (ledCount s) 32)) ^^ k) bm
            \<and> leds sk = map (\<lambda>i. if bit ((rot_left (nat (min (ledCount s) 32)) ^^ k) bm) i
                                    then c else Black) [0..<length (leds s)]" for k
    using marquee_closed[OF assms(1) refl assms(2), of hsv dim k c] by auto
  then show ?thesis
    unfolding marquee_first[OF assms(1)] by simp
qed

lemma upt4: "[0..<4] = [0, 1, 2, 3]"
  by (simp add: eval_nat_numeral upt_rec)

lemma rt1: "rot_left 4 3 = 6" "rot_left 4 6 = 12" "rot_left 4 12 = 9"
  by (simp_all add: rot_left_def)

lemma rt: "(rot_left 4 ^^ 1) 3 = 6" "(rot_left 4 ^^ 2) 3 = 12" "(rot_left 4 ^^ 3) 3 = 9"
  by (simp_all add: numeral_2_eq_2 numeral_3_eq_3 rt1)


lemma bits4:
  "bit (3 :: 32 word) 0" "bit (3 :: 32 word) 1" "\<not> bit (3 :: 32 word) 2" "\<not> bit (3 :: 32 word) 3"
  "\<not> bit (6 :: 32 word) 0" "bit (6 :: 32 word) 1" "bit (6 :: 32 word) 2" "\<not> bit (6 :: 32 word) 3"
  "\<not> bit (12 :: 32 word) 0" "\<not> bit (12 :: 32 word) 1" "bit (12 :: 32 word) 2" "bit (12 :: 32 word) 3"
  "bit (9 :: 32 word) 0" "\<not> bit (9 :: 32 word) 1" "\<not> bit (9 :: 32 word) 2" "bit (9 :: 32 word) 3"
  by (simp_all add: bit_iff_odd_drop_bit)


lemma px4:
  "map (\<lambda>i. if bit (3 :: 32 word) i then c else d) [0..<4] = [c, c, d, d]"
  "map (\<lambda>i. if bit (6 :: 32 word) i then c else d) [0..<4] = [d, c, c, d]"
  "map (\<lambda>i. if bit (12 :: 32 word) i then c else d) [0..<4] = [d, d, c, c]"
  "map (\<lambda>i. if bit (9 :: 32 word) i then c else d) [0..<4] = [c, d, d, c]"
  unfolding upt4 using bits4 by simp_all

text \<open>With bitmap 0b0011 on four pixels the ticks light {0,1}, {1,2}, {2,3}, {3,0}.\<close>

theorem marquee_rotates_example:
  "strip_ok (LEDControl_init 4 [Black, Black, Black, Black] 0)
   \<and> take_bit (nat (min (ledCount (LEDControl_init 4 [Black, Black, Black, Black] 0)) 32)) 3
       = (3 :: 32 word)
   \<and> (\<exists>s1 s2 s3 s4.
         update hsv_plain nscale8_video
           (setMarquee Red 3 (LEDControl_init 4 [Black, Black, Black, Black] 0)) = Some s1
       \<and> ticks hsv_plain nscale8_video 1 s1 = Some s2
       \<and> ticks hsv_plain nscale8_video 2 s1 = Some s3
       \<and> ticks hsv_plain nscale8_video 3 s1 = Some s4
       \<and> leds s1 = [Red, Red, Black, Black] \<and> leds s2 = [Black, Red, Red, Black]
       \<and> leds s3 = [Black, Black, Red, Red] \<and> leds s4 = [Red, Black, Black, Red])"
proof -
  let ?S = "LEDControl_init 4 [Black, Black, Black, Black] 0"
  have ok: "strip_ok ?S" by (simp add: strip_ok_def LEDControl_init_def)
  have n: "nat (min (ledCount ?S) 32) = 4" "length (leds ?S) = 4"
    by (simp_all add: LEDControl_init_def)
  have low: "take_bit (nat (min (ledCount ?S) 32)) 3 = (3 :: 32 word)"
    unfolding n by simp
  from marquee_rotates[OF ok low, of hsv_plain nscale8_video Red, unfolded n]
  obtain s1 where s1: "update hsv_plain nscale8_video (setMarquee Red 3 ?S) = Some s1"
      "leds s1 = map (\<lambda>i. if bit (3 :: 32 word) i then Red else Black) [0..<4]"
    and all: "\<And>k. \<exists>sk. ticks hsv_plain nscale8_video k s1 = Some sk
               \<and> leds sk = map (\<lambda>i. if bit ((rot_left 4 ^^ k) 3) i then Red else Black) [0..<4]"
    by blast
  from all[of 1] obtain s2 where s2: "ticks hsv_plain nscale8_video 1 s1 = Some s2"
    "leds s2 = [Black, Red, Red, Black]" unfolding rt px4 by blast
  from all[of 2] obtain s3 where s3: "ticks hsv_plain nscale8_video 2 s1 = Some s3"
    "leds s3 = [Black, Black, Red, Red]" unfolding rt px4 by blast
  from all[of 3] obtain s4 where s4: "ticks hsv_plain nscale8_video 3 s1 = Some s4"
    "leds s4 = [Red, Black, Black, Red]" unfolding rt px4 by blast
  have l1: "leds s1 = [Red, Red, Black, Black]" using s1(2) unfolding px4 .
  from ok low s1(1) l1 s2 s3 s4 show ?thesis by blast
qed

lemma bits16:
  "\<not> bit (16 :: 32 word) 0" "\<not> bit (16 :: 32 word) 1" "\<not> bit (16 :: 32 word) 2"
  "\<not> bit (16 :: 32 word) 3"
  "\<not> bit (34 :: 32 word) 0" "bit (34 :: 32 word) 1" "\<not> bit (34 :: 32 word) 2"
  "\<not> bit (34 :: 32 word) 3"
  by (simp_all add: bit_iff_odd_drop_bit)

text \<open>
  C5. The property: in Marquee mode, for every \<open>N > 0\<close> and every bitmap, each tick after
  the first rotates the effective bitmap (its low \<open>m = min N 32\<close> bits) circularly left by
  one position and re-renders the \<open>m\<close> pixels from it. \<^verbatim>\<open>update()\<close> rotates with
  \<^verbatim>\<open>(_bitmap << 1UL) | (_bitmap >> (m-1))\<close> on the whole word and never masks it, so the
  property holds for bitmaps that fit the strip (\<open>marquee_rotates\<close>) and breaks for wider
  ones. With bitmap 0b10000 on four pixels the low four bits are 0 and so is their
  rotation, the first tick lights nothing, and yet the second tick lights pixel 1,
  because the right shift brings bit 4 down.
\<close>

theorem marquee_wide_bitmap_diverges:
  "take_bit 4 (16 :: 32 word) = 0 \<and> rot_left 4 0 = 0
   \<and> map_option leds (ticks hsv_plain nscale8_video 1
        (setMarquee Red 16 (LEDControl_init 4 [Black, Black, Black, Black] 0)))
     = Some [Black, Black, Black, Black]
   \<and> map_option leds (ticks hsv_plain nscale8_video 2
        (setMarquee Red 16 (LEDControl_init 4 [Black, Black, Black, Black] 0)))
     = Some [Black, Red, Black, Black]"
proof -
  let ?S = "LEDControl_init 4 [Black, Black, Black, Black] 0"
  let ?s1 = "?S\<lparr>newMode := False, mode := MODE_MARQUEE, color := Red, bitmap := 16,
                leds := [Black, Black, Black, Black]\<rparr>"
  have ok: "strip_ok ?S" by (simp add: strip_ok_def LEDControl_init_def)
  have n: "length (leds ?S) = 4" by (simp add: LEDControl_init_def)
  have p1: "map (\<lambda>j. if bit (16 :: 32 word) j then Red else Black) [0..<4]
            = [Black, Black, Black, Black]"
    unfolding upt4 using bits16 by simp
  have u1: "update hsv_plain nscale8_video (setMarquee Red 16 ?S) = Some ?s1"
    using marquee_first[OF ok, of hsv_plain nscale8_video Red 16] unfolding n p1 .
  have ok1: "strip_ok ?s1" by (simp add: strip_ok_def LEDControl_init_def)
  have m: "4 = nat (min (ledCount ?s1) 32)" by (simp add: LEDControl_init_def)
  have w: "(34 :: 32 word) = push_bit 1 (bitmap ?s1) OR drop_bit (4 - 1) (bitmap ?s1)"
    by simp
  have p2: "map (\<lambda>j. if j < 4 then (if bit (34 :: 32 word) j then color ?s1 else Black)
                       else leds ?s1 ! j) [0..<length (leds ?s1)]
            = [Black, Red, Black, Black]"
    using bits16 by (simp add: upt4)
  have u2: "update hsv_plain nscale8_video ?s1
            = Some (?s1\<lparr>bitmap := 34, leds := [Black, Red, Black, Black]\<rparr>)"
    using marquee_later[OF ok1 _ _ m w, of hsv_plain nscale8_video] unfolding p2 by simp
  have t1: "ticks hsv_plain nscale8_video 1 (setMarquee Red 16 ?S) = Some ?s1"
    using u1 by simp
  have "ticks hsv_plain nscale8_video (Suc (Suc 0)) (setMarquee Red 16 ?S)
        = Some (?s1\<lparr>bitmap := 34, leds := [Black, Red, Black, Black]\<rparr>)"
    by (simp only: ticks.simps u1 u2 Option.bind.simps)
  then have t2: "ticks hsv_plain nscale8_video 2 (setMarquee Red 16 ?S)
        = Some (?s1\<lparr>bitmap := 34, leds := [Black, Red, Black, Black]\<rparr>)"
    by (simp only: numeral_2_eq_2)
  have e: "take_bit 4 (16 :: 32 word) = 0" "rot_left 4 0 = 0"
    by (simp_all add: rot_left_def)
  show ?thesis unfolding t1 t2 using e by simp
qed

end
